theory Spec2Isabelle
  imports Main "HOL-Library.Log_Nat" "HOL-Library.AList"
begin

section \<open>Text, errors and the Python primitives the script relies on\<close>

text \<open>
  The script \<^verbatim>\<open>private_ip_statistics.py\<close> works on Python \<^verbatim>\<open>str\<close> values. A
  \<^typ>\<open>string\<close> models such a value with one \<^typ>\<open>char\<close> per code point, restricted to
  the code points 0..255 (Latin-1). Exceptions are values of \<open>error\<close>; a function that can
  raise returns \<open>error + 'a\<close>, \<open>Inl\<close> carrying the exception.
\<close>

datatype error = ValueError | OverflowError | IndexError | RequestError

text \<open>\<^verbatim>\<open>\d\<close> of the \<^verbatim>\<open>re\<close> module on a \<^verbatim>\<open>str\<close> pattern: the decimal digits. Among
  the code points 0..255 these are exactly \<^verbatim>\<open>0\<close>..\<^verbatim>\<open>9\<close>.\<close>

definition is_digit :: "char \<Rightarrow> bool" where
  "is_digit c = (c \<in> set ''0123456789'')"

text \<open>\<^verbatim>\<open>str.isspace\<close>, which is also what \<^verbatim>\<open>\s\<close>, \<^verbatim>\<open>str.strip()\<close> and the
  numeric constructors use: tab, line feed, vertical tab, form feed, carriage return, the
  separators 0x1C..0x1F, space, NEL (0x85) and the no-break space (0xA0).\<close>

definition is_space :: "char \<Rightarrow> bool" where
  "is_space c = (c \<in> set [CHR 0x09, CHR 0x0A, CHR 0x0B, CHR 0x0C, CHR 0x0D,
                           CHR 0x1C, CHR 0x1D, CHR 0x1E, CHR 0x1F, CHR 0x20,
                           CHR 0x85, CHR 0xA0])"

text \<open>\<^verbatim>\<open>s.strip()\<close>: whitespace removed at both ends.\<close>

definition strip :: "string \<Rightarrow> string" where
  "strip s = rev (dropWhile is_space (rev (dropWhile is_space s)))"

text \<open>\<^verbatim>\<open>s.upper()\<close> on the letters \<^verbatim>\<open>a\<close>..\<^verbatim>\<open>z\<close>. Every other character is left
  as it is: Python maps the remaining lower-case letters of Latin-1 to letters outside
  ASCII (or to \<^verbatim>\<open>SS\<close>), none of which is a digit, a dot, whitespace or one of the unit
  letters, so the pattern below treats the result the same way.\<close>

definition upper_char :: "char \<Rightarrow> char" where
  "upper_char c =
     (case map_of (zip ''abcdefghijklmnopqrstuvwxyz'' ''ABCDEFGHIJKLMNOPQRSTUVWXYZ'') c of
        Some u \<Rightarrow> u
      | None \<Rightarrow> c)"

definition upper :: "string \<Rightarrow> string" where
  "upper s = map upper_char s"

text \<open>The value of a digit and of a run of digits read in base ten.\<close>

definition digit_val :: "char \<Rightarrow> int" where
  "digit_val c = of_char c - 48"

definition digits_val :: "string \<Rightarrow> int" where
  "digits_val s = foldl (\<lambda>a c. 10 * a + digit_val c) 0 s"

text \<open>\<^verbatim>\<open>int(s)\<close> on text made of digits and whitespace, which is all that reaches it
  here (the parts of a string that matched the address pattern): surrounding whitespace is
  dropped, a non-empty run of digits is read in base ten (leading zeros allowed), anything
  else raises \<^verbatim>\<open>ValueError\<close>.\<close>

definition py_int :: "string \<Rightarrow> error + int" where
  "py_int s =
     (let t = strip s
      in if t \<noteq> [] \<and> list_all is_digit t then Inr (digits_val t) else Inl ValueError)"

text \<open>\<^verbatim>\<open>s.split(sep)\<close> for a one-character separator: the pieces between the
  separators, empty pieces kept.\<close>

fun split_acc :: "char \<Rightarrow> string \<Rightarrow> string \<Rightarrow> string list" where
  "split_acc sep cur [] = [cur]"
| "split_acc sep cur (c # cs) =
     (if c = sep then cur # split_acc sep [] cs else split_acc sep (cur @ [c]) cs)"

definition str_split :: "string \<Rightarrow> char \<Rightarrow> string list" where
  "str_split s sep = split_acc sep [] s"

text \<open>A list comprehension whose element expression can raise: the first exception ends
  it.\<close>

fun map_err :: "('a \<Rightarrow> error + 'b) \<Rightarrow> 'a list \<Rightarrow> error + 'b list" where
  "map_err f [] = Inr []"
| "map_err f (x # xs) =
     (case f x of
        Inl e \<Rightarrow> Inl e
      | Inr y \<Rightarrow> (case map_err f xs of Inl e \<Rightarrow> Inl e | Inr ys \<Rightarrow> Inr (y # ys)))"

text \<open>\<^verbatim>\<open>xs[i]\<close> for \<open>i \<ge> 0\<close>: \<^verbatim>\<open>IndexError\<close> out of range.\<close>

definition index :: "'a list \<Rightarrow> nat \<Rightarrow> error + 'a" where
  "index xs i = (if i < length xs then Inr (xs ! i) else Inl IndexError)"

section \<open>The IP classifier\<close>

text \<open>
  \<^verbatim>\<open>\d{1,3}\.\<close> at the start of \<open>s\<close>; the result is the text after the dot. The digit
  count is greedy, and giving a digit back never helps: the character after a shorter run
  is a digit, not a dot. So the group matches iff the maximal run of digits has one to
  three characters and a dot follows it.
\<close>

definition octet_dot :: "string \<Rightarrow> string option" where
  "octet_dot s =
     (let d = takeWhile is_digit s
      in if 1 \<le> length d \<and> length d \<le> 3
         then (case dropWhile is_digit s of
                 [] \<Rightarrow> None
               | c # r \<Rightarrow> if c = CHR ''.'' then Some r else None)
         else None)"

text \<open>\<^verbatim>\<open>\d{1,3}$\<close> on the rest: one to three digits up to the end. Without
  \<^verbatim>\<open>re.MULTILINE\<close>, \<^verbatim>\<open>$\<close> matches at the end of the string and also just before a
  line feed that ends the string.\<close>

definition octet_end :: "string \<Rightarrow> bool" where
  "octet_end s =
     (let d = takeWhile is_digit s; r = dropWhile is_digit s
      in 1 \<le> length d \<and> length d \<le> 3 \<and> (r = [] \<or> r = [CHR 0x0A]))"

text \<open>\<^verbatim>\<open>re.compile(r'^(\d{1,3}\.){3}\d{1,3}$').match(ip)\<close>.\<close>

definition ip_pattern_match :: "string \<Rightarrow> bool" where
  "ip_pattern_match ip =
     (case octet_dot ip of
        None \<Rightarrow> False
      | Some r1 \<Rightarrow>
          (case octet_dot r1 of
             None \<Rightarrow> False
           | Some r2 \<Rightarrow>
               (case octet_dot r2 of
                  None \<Rightarrow> False
                | Some r3 \<Rightarrow> octet_end r3)))"

text \<open>The three tests of the \<^verbatim>\<open>if\<close>/\<^verbatim>\<open>elif\<close> chain on \<^verbatim>\<open>parts\<close>, each reading
  \<^verbatim>\<open>parts[1]\<close> only after its test on \<^verbatim>\<open>parts[0]\<close> held.\<close>

definition first_is :: "int list \<Rightarrow> int \<Rightarrow> error + bool" where
  "first_is parts v = (case index parts 0 of Inl e \<Rightarrow> Inl e | Inr p0 \<Rightarrow> Inr (p0 = v))"

definition first_and_second :: "int list \<Rightarrow> int \<Rightarrow> int \<Rightarrow> int \<Rightarrow> error + bool" where
  "first_and_second parts v lo hi =
     (case first_is parts v of
        Inl e \<Rightarrow> Inl e
      | Inr False \<Rightarrow> Inr False
      | Inr True \<Rightarrow>
          (case index parts 1 of Inl e \<Rightarrow> Inl e | Inr p1 \<Rightarrow> Inr (lo \<le> p1 \<and> p1 \<le> hi)))"

definition is_private_ip :: "string \<Rightarrow> error + bool" where
  "is_private_ip ip =
     (if \<not> ip_pattern_match ip then Inr False
      else
        (case map_err py_int (str_split ip (CHR ''.'')) of
           Inl e \<Rightarrow> Inl e
         | Inr parts \<Rightarrow>
             (case first_is parts 10 of
                Inl e \<Rightarrow> Inl e
              | Inr True \<Rightarrow> Inr True
              | Inr False \<Rightarrow>
                  (case first_and_second parts 172 16 31 of
                     Inl e \<Rightarrow> Inl e
                   | Inr True \<Rightarrow> Inr True
                   | Inr False \<Rightarrow>
                       (case first_and_second parts 192 168 168 of
                          Inl e \<Rightarrow> Inl e
                        | Inr True \<Rightarrow> Inr True
                        | Inr False \<Rightarrow> Inr False)))))"








section \<open>Python floats\<close>

text \<open>
  A Python \<^verbatim>\<open>float\<close> is an IEEE 754 binary64 number. Only non-negative values arise in
  the script (a literal without sign, a quotient of non-negative integers), so a float is
  either a finite value, kept as the rational it denotes, or positive infinity.
\<close>

datatype pyfloat = Finite rat | Infinity

text \<open>The binary exponent of a positive rational, \<open>2 powi ilog2 q \<le> q < 2 powi (ilog2 q + 1)\<close>,
  found from the bit lengths of numerator and denominator.\<close>

definition ilog2 :: "rat \<Rightarrow> int" where
  "ilog2 q =
     (let (a, b) = quotient_of q; d = bitlen a - bitlen b
      in if 2 powi d \<le> q then d else d - 1)"

text \<open>Rounding to the nearest integer, a tie going to the even neighbour.\<close>

definition round_half_even :: "rat \<Rightarrow> int" where
  "round_half_even r =
     (let f = \<lfloor>r\<rfloor>; d = r - of_int f
      in if d < 1 / 2 then f else if 1 / 2 < d then f + 1 else if even f then f else f + 1)"

text \<open>
  The binary64 number nearest to a non-negative rational (round to nearest, ties to even):
  a significand \<open>m\<close> of 53 bits at the exponent \<open>dexp q\<close> of the last bit, which is not
  below \<open>-1074\<close> (subnormal numbers), and infinity once the rounded value
  \<open>m * 2 powi dexp q\<close> reaches \<open>2 ^ 1024\<close>, that is, once \<open>m\<close> has more than
  \<open>1024 - dexp q\<close> bits.
\<close>

definition dexp :: "rat \<Rightarrow> int" where
  "dexp q = max (ilog2 q - 52) (- 1074)"

definition round_double :: "rat \<Rightarrow> pyfloat" where
  "round_double q =
     (if q \<le> 0 then Finite 0
      else
        (let m = round_half_even (q / 2 powi dexp q)
         in if 1024 < bitlen m + dexp q then Infinity else Finite (of_int m * 2 powi dexp q)))"

text \<open>
  \<^verbatim>\<open>float(s)\<close> on text made of digits and dots, which is all that group 1 of the
  bandwidth pattern holds: digits with at most one dot and at least one digit denote the
  nearest binary64 number (infinity when too large); any other such text raises
  \<^verbatim>\<open>ValueError\<close>.
\<close>

definition py_float :: "string \<Rightarrow> error + pyfloat" where
  "py_float s =
     (let t = strip s; ip = takeWhile is_digit t
      in case dropWhile is_digit t of
           [] \<Rightarrow> if ip = [] then Inl ValueError
                 else Inr (round_double (of_int (digits_val ip)))
         | c # fp \<Rightarrow>
             if c = CHR ''.'' \<and> list_all is_digit fp \<and> (ip \<noteq> [] \<or> fp \<noteq> [])
             then Inr (round_double (of_int (digits_val (ip @ fp)) / 10 ^ length fp))
             else Inl ValueError)"

text \<open>\<^verbatim>\<open>x * k\<close> for a float \<open>x\<close> and a positive integer \<open>k\<close> that a float holds exactly
  (here a power of 1024): the product rounded, infinity on overflow.\<close>

definition float_mul :: "pyfloat \<Rightarrow> int \<Rightarrow> pyfloat" where
  "float_mul x k =
     (case x of Infinity \<Rightarrow> Infinity | Finite v \<Rightarrow> round_double (v * of_int k))"

text \<open>\<^verbatim>\<open>int(x)\<close>: truncation toward zero; \<^verbatim>\<open>OverflowError\<close> on infinity.\<close>

definition int_of_float :: "pyfloat \<Rightarrow> error + int" where
  "int_of_float x =
     (case x of
        Infinity \<Rightarrow> Inl OverflowError
      | Finite v \<Rightarrow> Inr (if 0 \<le> v then \<lfloor>v\<rfloor> else \<lceil>v\<rceil>))"

section \<open>The bandwidth codec: parsing\<close>

text \<open>
  \<^verbatim>\<open>re.match(r'([\d\.]+)\s*(TB|GB|MB|KB|B)', s)\<close>, giving groups 1 and 2. The match
  starts at the first character. Both repetitions are greedy and nothing is gained by
  giving a character back: after a shorter run of digits and dots comes a digit or a dot,
  after a shorter run of whitespace a whitespace character, and no unit starts with
  either. So group 1 is the maximal run of digits and dots, which must not be empty, the
  maximal run of whitespace is skipped, and the alternatives are tried in their order.
\<close>

definition is_num_char :: "char \<Rightarrow> bool" where
  "is_num_char c = (is_digit c \<or> c = CHR ''.'')"

definition units :: "string list" where
  "units = [''TB'', ''GB'', ''MB'', ''KB'', ''B'']"

definition match_unit :: "string \<Rightarrow> string option" where
  "match_unit s = find (\<lambda>u. take (length u) s = u) units"

definition bandwidth_match :: "string \<Rightarrow> (string \<times> string) option" where
  "bandwidth_match s =
     (let num = takeWhile is_num_char s
      in if num = [] then None
         else (case match_unit (dropWhile is_space (dropWhile is_num_char s)) of
                 None \<Rightarrow> None
               | Some unit \<Rightarrow> Some (num, unit)))"

definition convert_bandwidth_to_bytes :: "string \<Rightarrow> error + int" where
  "convert_bandwidth_to_bytes bandwidth_str =
     (case bandwidth_match (upper (strip bandwidth_str)) of
        None \<Rightarrow> Inr 0
      | Some (num, unit) \<Rightarrow>
          (case py_float num of
             Inl e \<Rightarrow> Inl e
           | Inr val \<Rightarrow>
               if unit = ''KB'' then int_of_float (float_mul val 1024)
               else if unit = ''MB'' then int_of_float (float_mul val (1024 ^ 2))
               else if unit = ''GB'' then int_of_float (float_mul val (1024 ^ 3))
               else if unit = ''TB'' then int_of_float (float_mul val (1024 ^ 4))
               else if unit = ''B'' then int_of_float val
               else Inr 0))"

text \<open>
  What the specification calls a bandwidth literal, for comparison with the parser: a
  decimal number is digits with at most one dot and at least one digit, its magnitude is
  the integer part plus the fraction, and every unit has its power of 1024.
\<close>

definition valid_decimal :: "string \<Rightarrow> bool" where
  "valid_decimal s =
     (list_all is_num_char s \<and> length (filter (\<lambda>c. c = CHR ''.'') s) \<le> 1 \<and>
      filter is_digit s \<noteq> [])"

definition decimal_value :: "string \<Rightarrow> rat" where
  "decimal_value s =
     (let ip = takeWhile is_digit s; fp = drop 1 (dropWhile is_digit s)
      in of_int (digits_val ip) + of_int (digits_val fp) / 10 ^ length fp)"

definition unit_scale :: "string \<Rightarrow> int" where
  "unit_scale u =
     (if u = ''KB'' then 1024
      else if u = ''MB'' then 1024 ^ 2
      else if u = ''GB'' then 1024 ^ 3
      else if u = ''TB'' then 1024 ^ 4
      else 1)"

section \<open>The bandwidth codec: formatting\<close>

text \<open>\<^verbatim>\<open>str(n)\<close> for an integer: the decimal digits, a minus sign first when negative.\<close>

definition digit_char :: "int \<Rightarrow> char" where
  "digit_char d = ''0123456789'' ! nat d"

function str_pos :: "int \<Rightarrow> string" where
  "str_pos n = (if n < 10 then [digit_char n] else str_pos (n div 10) @ [digit_char (n mod 10)])"
  by pat_completeness auto
termination
  by (relation "measure nat") auto

declare str_pos.simps [simp del]

definition str_int :: "int \<Rightarrow> string" where
  "str_int n = (if n < 0 then CHR ''-'' # str_pos (- n) else str_pos n)"

text \<open>
  \<^verbatim>\<open>a / b\<close> for integers \<open>a \<ge> 0\<close> and \<open>b > 0\<close>: the binary64 number nearest to the
  quotient, \<^verbatim>\<open>OverflowError\<close> when that is not finite. The result is the value of the
  (finite) float.
\<close>

definition int_true_div :: "int \<Rightarrow> int \<Rightarrow> error + rat" where
  "int_true_div a b =
     (case round_double (of_int a / of_int b) of
        Infinity \<Rightarrow> Inl OverflowError
      | Finite v \<Rightarrow> Inr v)"

text \<open>
  \<^verbatim>\<open>f"{x:.2f}"\<close> for a finite float \<open>x \<ge> 0\<close>: the value rounded to hundredths (a tie
  going to the even hundredth), written as integer part, dot and two digits.
\<close>

definition fmt_2f :: "rat \<Rightarrow> string" where
  "fmt_2f v =
     (let c = round_half_even (v * 100)
      in str_int (c div 100) @ [CHR ''.'', digit_char (c mod 100 div 10), digit_char (c mod 10)])"

definition format_bandwidth :: "int \<Rightarrow> error + string" where
  "format_bandwidth size_in_bytes =
     (if 1024 ^ 4 \<le> size_in_bytes then
        (case int_true_div size_in_bytes (1024 ^ 4) of
           Inl e \<Rightarrow> Inl e
         | Inr v \<Rightarrow> Inr (fmt_2f v @ '' TB''))
      else if 1024 ^ 3 \<le> size_in_bytes then
        (case int_true_div size_in_bytes (1024 ^ 3) of
           Inl e \<Rightarrow> Inl e
         | Inr v \<Rightarrow> Inr (fmt_2f v @ '' GB''))
      else if 1024 ^ 2 \<le> size_in_bytes then
        (case int_true_div size_in_bytes (1024 ^ 2) of
           Inl e \<Rightarrow> Inl e
         | Inr v \<Rightarrow> Inr (fmt_2f v @ '' MB''))
      else if 1024 \<le> size_in_bytes then
        (case int_true_div size_in_bytes 1024 of
           Inl e \<Rightarrow> Inl e
         | Inr v \<Rightarrow> Inr (fmt_2f v @ '' KB''))
      else Inr (str_int size_in_bytes @ '' B''))"

section \<open>The report extractor\<close>

text \<open>
  The page is fetched and parsed by libraries outside the script. What the script's own
  code sees of a page is the table that \<^verbatim>\<open>soup.find('table', {'border': '1'})\<close> returns,
  if any: a list with one entry per \<^verbatim>\<open>tr\<close>, each the texts of its \<^verbatim>\<open>td\<close> cells. The outside
  world is a function \<open>fetch\<close> from a URL to either an exception of
  \<^verbatim>\<open>requests.get\<close>/\<^verbatim>\<open>raise_for_status\<close> or that table, and a record of what the run has
  printed, requested and written.
\<close>

type_synonym row = "string list"

type_synonym table = "row list"

type_synonym fetcher = "string \<Rightarrow> error + table option"

record world =
  stdout :: "string list"
  requests :: "string list"
  csv_file :: "string list list option"

text \<open>The loop over the rows.\<close>

fun sum_rows :: "row list \<Rightarrow> int \<Rightarrow> error + int" where
  "sum_rows [] total_bandwidth = Inr total_bandwidth"
| "sum_rows (cols # rows) total_bandwidth =
     (if length cols < 6 then sum_rows rows total_bandwidth
      else
        (let ip = strip (cols ! 0)
         in case is_private_ip ip of
              Inl e \<Rightarrow> Inl e
            | Inr private \<Rightarrow>
                if \<not> private \<and> ip \<noteq> ''Others'' then sum_rows rows total_bandwidth
                else
                  (case convert_bandwidth_to_bytes (strip (cols ! 5)) of
                     Inl e \<Rightarrow> Inl e
                   | Inr bandwidth_in_bytes \<Rightarrow> sum_rows rows (total_bandwidth + bandwidth_in_bytes))))"

definition parse_awstats_monthly_page ::
  "fetcher \<Rightarrow> string \<Rightarrow> world \<Rightarrow> (error + int) \<times> world" where
  "parse_awstats_monthly_page fetch url w =
     (let w1 = w\<lparr>requests := requests w @ [url]\<rparr>
      in case fetch url of
           Inl e \<Rightarrow> (Inl e, w1)
         | Inr None \<Rightarrow>
             (Inr 0,
              w1\<lparr>stdout := stdout w1 @ [''Unable to find the data table. Adjust your selector.'']\<rparr>)
         | Inr (Some tbl) \<Rightarrow> (sum_rows (drop 2 tbl) 0, w1))"

text \<open>
  The rows the specification says are summed, and the sum of a list of parse results in
  which the first exception wins, for comparison with the loop.
\<close>

definition included :: "row \<Rightarrow> bool" where
  "included cols =
     (6 \<le> length cols \<and>
      (strip (cols ! 0) = ''Others'' \<or> is_private_ip (strip (cols ! 0)) = Inr True))"

fun sum_results :: "(error + int) list \<Rightarrow> error + int" where
  "sum_results [] = Inr 0"
| "sum_results (r # rs) =
     (case r of
        Inl e \<Rightarrow> Inl e
      | Inr b \<Rightarrow> (case sum_results rs of Inl e \<Rightarrow> Inl e | Inr t \<Rightarrow> Inr (b + t)))"

section \<open>The monthly aggregator\<close>

text \<open>\<^verbatim>\<open>f"{month:02d}"\<close>: at least two characters, zeros on the left.\<close>

definition pad2 :: "int \<Rightarrow> string" where
  "pad2 n = (let s = str_int n in if length s < 2 then CHR ''0'' # s else s)"

definition period_key :: "int \<Rightarrow> int \<Rightarrow> string" where
  "period_key year month = str_int year @ ''-'' @ pad2 month"

definition page_url :: "int \<Rightarrow> int \<Rightarrow> string" where
  "page_url year month =
     ''https://glua.ua.pt/awstats/cgi-bin/awstats.pl?databasebreak=month&month='' @ pad2 month @
     ''&year='' @ str_int year @ ''&config=http&framename=mainright&output=urldetail''"

type_synonym aggregate = "(string \<times> int) list"

text \<open>
  The body of the inner loop for a month that is neither skipped nor past the end: the
  page is fetched and summed, the total is formatted and printed, and the entry is stored.
  The dictionary \<^verbatim>\<open>monthly_bandwidth\<close> keeps its keys in insertion order, which is what
  \<^const>\<open>AList.update\<close> does with an association list. An exception ends the run.
\<close>

definition process_period ::
  "fetcher \<Rightarrow> int \<Rightarrow> int \<Rightarrow> aggregate \<Rightarrow> world \<Rightarrow> (error + aggregate) \<times> world" where
  "process_period fetch year month monthly_bandwidth w =
     (let w1 = w\<lparr>stdout := stdout w @ [''Processing '' @ period_key year month @ ''...'']\<rparr>
      in case parse_awstats_monthly_page fetch (page_url year month) w1 of
           (Inl e, w2) \<Rightarrow> (Inl e, w2)
         | (Inr bandwidth_in_bytes, w2) \<Rightarrow>
             (case format_bandwidth bandwidth_in_bytes of
                Inl e \<Rightarrow> (Inl e, w2)
              | Inr formatted_bandwidth \<Rightarrow>
                  (Inr (AList.update (period_key year month) bandwidth_in_bytes monthly_bandwidth),
                   w2\<lparr>stdout := stdout w2 @
                      [''Total bandwidth for '' @ period_key year month @ '': '' @
                       formatted_bandwidth]\<rparr>)))"

text \<open>
  The inner loop over \<^verbatim>\<open>range(1, 13)\<close> for one year: \<^verbatim>\<open>continue\<close> goes on with the
  remaining months, \<^verbatim>\<open>break\<close> ends the year.
\<close>

fun month_loop ::
  "fetcher \<Rightarrow> int \<Rightarrow> int \<Rightarrow> int \<Rightarrow> int \<Rightarrow> int \<Rightarrow> int list \<Rightarrow> aggregate \<Rightarrow> world
     \<Rightarrow> (error + aggregate) \<times> world" where
  "month_loop fetch start_year start_month end_year end_month year [] monthly_bandwidth w =
     (Inr monthly_bandwidth, w)"
| "month_loop fetch start_year start_month end_year end_month year (month # months)
     monthly_bandwidth w =
     (if year = start_year \<and> month < start_month then
        month_loop fetch start_year start_month end_year end_month year months monthly_bandwidth w
      else if year = end_year \<and> end_month < month then (Inr monthly_bandwidth, w)
      else
        (case process_period fetch year month monthly_bandwidth w of
           (Inl e, w') \<Rightarrow> (Inl e, w')
         | (Inr d, w') \<Rightarrow>
             month_loop fetch start_year start_month end_year end_month year months d w'))"

text \<open>The outer loop over \<^verbatim>\<open>range(start_year, end_year + 1)\<close>.\<close>

fun year_loop ::
  "fetcher \<Rightarrow> int \<Rightarrow> int \<Rightarrow> int \<Rightarrow> int \<Rightarrow> int list \<Rightarrow> aggregate \<Rightarrow> world
     \<Rightarrow> (error + aggregate) \<times> world" where
  "year_loop fetch start_year start_month end_year end_month [] monthly_bandwidth w =
     (Inr monthly_bandwidth, w)"
| "year_loop fetch start_year start_month end_year end_month (year # years) monthly_bandwidth w =
     (case month_loop fetch start_year start_month end_year end_month year [1..12]
             monthly_bandwidth w of
        (Inl e, w') \<Rightarrow> (Inl e, w')
      | (Inr d, w') \<Rightarrow> year_loop fetch start_year start_month end_year end_month years d w')"

text \<open>The file \<^verbatim>\<open>monthly_bandwidth_data.csv\<close> as the rows handed to the CSV writer.\<close>

definition csv_rows :: "aggregate \<Rightarrow> string list list" where
  "csv_rows d = [''Year-Month'', ''Bandwidth (Bytes)''] # map (\<lambda>(k, v). [k, str_int v]) d"

definition fetch_and_save_monthly_data ::
  "fetcher \<Rightarrow> int \<Rightarrow> int \<Rightarrow> int \<Rightarrow> int \<Rightarrow> world \<Rightarrow> (error + aggregate) \<times> world" where
  "fetch_and_save_monthly_data fetch start_year start_month end_year end_month w =
     (case year_loop fetch start_year start_month end_year end_month [start_year..end_year] [] w of
        (Inl e, w') \<Rightarrow> (Inl e, w')
      | (Inr monthly_bandwidth, w') \<Rightarrow>
          (Inr monthly_bandwidth, w'\<lparr>csv_file := Some (csv_rows monthly_bandwidth)\<rparr>))"

text \<open>
  The periods of a range as the specification lists them: every month from the start
  period to the end period, counted as months since year 0, and the same loop body run
  over a given list of periods.
\<close>

definition month_index :: "int \<Rightarrow> int \<Rightarrow> int" where
  "month_index year month = year * 12 + (month - 1)"

definition periods :: "int \<Rightarrow> int \<Rightarrow> int \<Rightarrow> int \<Rightarrow> (int \<times> int) list" where
  "periods start_year start_month end_year end_month =
     map (\<lambda>i. (i div 12, i mod 12 + 1))
       [month_index start_year start_month..month_index end_year end_month]"

fun run_periods ::
  "fetcher \<Rightarrow> (int \<times> int) list \<Rightarrow> aggregate \<Rightarrow> world \<Rightarrow> (error + aggregate) \<times> world" where
  "run_periods fetch [] d w = (Inr d, w)"
| "run_periods fetch ((year, month) # ps) d w =
     (case process_period fetch year month d w of
        (Inl e, w') \<Rightarrow> (Inl e, w')
      | (Inr d', w') \<Rightarrow> run_periods fetch ps d' w')"

text \<open>The months of one year that the inner loop processes, and the periods that both
  loops process, in their order.\<close>

definition year_months :: "int \<Rightarrow> int \<Rightarrow> int \<Rightarrow> int \<Rightarrow> int \<Rightarrow> int list \<Rightarrow> int list" where
  "year_months sy sm ey em y ms =
     filter (\<lambda>m. \<not> (y = sy \<and> m < sm) \<and> \<not> (y = ey \<and> em < m)) ms"

definition visited :: "int \<Rightarrow> int \<Rightarrow> int \<Rightarrow> int \<Rightarrow> int list \<Rightarrow> (int \<times> int) list" where
  "visited sy sm ey em ys =
     concat (map (\<lambda>y. map (Pair y) (year_months sy sm ey em y [1..12])) ys)"

text \<open>The key and the URL of a period given as a pair.\<close>

definition key_of :: "int \<times> int \<Rightarrow> string" where
  "key_of p = period_key (fst p) (snd p)"

definition url_of :: "int \<times> int \<Rightarrow> string" where
  "url_of p = page_url (fst p) (snd p)"

text \<open>An outside world in which the request for January 2024 fails and every other page
  has no table.\<close>

definition failing_2024_01 :: fetcher where
  "failing_2024_01 url = (if url = page_url 2024 1 then Inl RequestError else Inr None)"

text \<open>A page whose rows sum without an exception to a total that can be formatted.\<close>

definition page_ok :: "table option \<Rightarrow> bool" where
  "page_ok page =
     (case page of
        None \<Rightarrow> True
      | Some tbl \<Rightarrow>
          (case sum_rows (drop 2 tbl) 0 of
             Inl e \<Rightarrow> False
           | Inr b \<Rightarrow> (case format_bandwidth b of Inl e \<Rightarrow> False | Inr s \<Rightarrow> True)))"

section \<open>Facts about upper-casing, stripping and the bandwidth pattern\<close>

lemma upper_char_cases:
  "upper_char c = c \<or>
   (c \<in> set ''abcdefghijklmnopqrstuvwxyz'' \<and> upper_char c \<in> set ''ABCDEFGHIJKLMNOPQRSTUVWXYZ'')"
proof (cases "map_of (zip ''abcdefghijklmnopqrstuvwxyz'' ''ABCDEFGHIJKLMNOPQRSTUVWXYZ'') c")
  case None
  then show ?thesis by (simp only: upper_char_def option.case simp_thms)
next
  case (Some u)
  then have "(c, u) \<in> set (zip ''abcdefghijklmnopqrstuvwxyz'' ''ABCDEFGHIJKLMNOPQRSTUVWXYZ'')"
    by (rule map_of_SomeD)
  then have "c \<in> set ''abcdefghijklmnopqrstuvwxyz''" and "u \<in> set ''ABCDEFGHIJKLMNOPQRSTUVWXYZ''"
    by (rule set_zip_leftD, rule set_zip_rightD)
  moreover have "upper_char c = u" using Some by (simp only: upper_char_def option.case)
  ultimately show ?thesis by (simp only: simp_thms) 
qed

lemma lower_not_num:
  "c \<in> set ''abcdefghijklmnopqrstuvwxyz'' \<Longrightarrow> \<not> is_num_char c \<and> \<not> is_space c"
  by (auto simp: is_num_char_def is_digit_def is_space_def)

lemma upper_not_num:
  "c \<in> set ''ABCDEFGHIJKLMNOPQRSTUVWXYZ'' \<Longrightarrow> \<not> is_num_char c \<and> \<not> is_space c"
  by (auto simp: is_num_char_def is_digit_def is_space_def)

lemma is_num_char_upper: "is_num_char (upper_char c) = is_num_char c"
  using upper_char_cases[of c] lower_not_num[of c] upper_not_num[of "upper_char c"]
  by (auto simp del: set_simps list.set)

lemma is_space_upper: "is_space (upper_char c) = is_space c"
  using upper_char_cases[of c] lower_not_num[of c] upper_not_num[of "upper_char c"]
  by (auto simp del: set_simps list.set)

lemma upper_char_num: "is_num_char c \<Longrightarrow> upper_char c = c"
  using upper_char_cases[of c] lower_not_num[of c] by (auto simp del: set_simps list.set)

lemma upper_char_space: "is_space c \<Longrightarrow> upper_char c = c"
  using upper_char_cases[of c] lower_not_num[of c] by (auto simp del: set_simps list.set)

lemma upper_append: "upper (a @ b) = upper a @ upper b"
  by (simp add: upper_def)

lemma upper_num: "list_all is_num_char s \<Longrightarrow> upper s = s"
  by (induction s) (simp_all add: upper_def upper_char_num)

lemma upper_space: "list_all is_space s \<Longrightarrow> upper s = s"
  by (induction s) (simp_all add: upper_def upper_char_space)

lemma num_not_space: "is_num_char c \<Longrightarrow> \<not> is_space c"
  by (auto simp: is_num_char_def is_digit_def is_space_def)

lemma strip_framed:
  assumes "a \<noteq> []" "\<not> is_space (hd a)" "\<not> is_space (last a)"
  shows "strip (a @ t) = a @ rev (dropWhile is_space (rev t))"
proof -
  from assms obtain x xs where a: "a = x # xs" by (cases a) auto
  with assms have "dropWhile is_space (a @ t) = a @ t" by simp
  moreover have "dropWhile is_space (rev t @ rev a) = dropWhile is_space (rev t) @ rev a"
  proof (cases "\<forall>c\<in>set (rev t). is_space c")
    case True
    from assms have "dropWhile is_space (rev a) = rev a"
      by (cases "rev a") (auto simp: last_rev hd_rev)
    with True show ?thesis by (simp add: dropWhile_append)
  next
    case False
    then show ?thesis by (metis dropWhile_append1 set_rev)
  qed
  ultimately show ?thesis by (simp add: strip_def)
qed

lemma match_unit_prefix:
  "u \<in> set units \<Longrightarrow> match_unit (u @ t) = Some u"
  by (auto simp: match_unit_def units_def)

lemma match_unit_empty: "match_unit [] = None"
  by (simp add: match_unit_def units_def)

lemma match_unit_first:
  "match_unit (c # s) \<noteq> None \<Longrightarrow> c \<in> set ''TGMKB''"
  by (auto simp: match_unit_def units_def split: if_splits)


lemma unit_facts:
  assumes "U \<in> set units"
  shows "U \<noteq> []" "\<not> is_space (hd U)" "\<not> is_num_char (hd U)" "\<not> is_space (last U)"
  using assms by (auto simp: units_def is_space_def is_num_char_def is_digit_def)

lemma bandwidth_match_shape:
  assumes "num \<noteq> []" "list_all is_num_char num" "list_all is_space ws"
    and U: "U \<in> set units"
  shows "bandwidth_match (num @ ws @ U @ t) = Some (num, U)"
proof -
  from unit_facts[OF U] obtain c cs where Ucs: "U = c # cs" and c: "\<not> is_space c" "\<not> is_num_char c"
    by (cases U) auto
  have stop: "takeWhile is_num_char (ws @ U @ t) = []" "dropWhile is_num_char (ws @ U @ t) = ws @ U @ t"
    using assms(3) c Ucs by (cases ws; auto dest: num_not_space)+
  have all: "\<forall>x\<in>set num. is_num_char x" using assms(2) by (simp add: list_all_iff)
  have tk: "takeWhile is_num_char (num @ ws @ U @ t) = num"
    using all stop by (simp add: takeWhile_append2)
  have dr: "dropWhile is_num_char (num @ ws @ U @ t) = ws @ U @ t"
    using all stop by (simp add: dropWhile_append2)
  have sp: "dropWhile is_space (ws @ U @ t) = U @ t"
    using assms(3) c Ucs by (simp add: dropWhile_append2 list_all_iff)
  show ?thesis
    using assms(1) by (simp add: bandwidth_match_def tk dr sp match_unit_prefix[OF U] del: set_simps list.set)
qed

lemma convert_shape:
  assumes num: "num \<noteq> []" "list_all is_num_char num" and ws: "list_all is_space ws"
    and U: "upper u \<in> set units"
  shows "bandwidth_match (upper (strip (num @ ws @ u @ t))) = Some (num, upper u)"
proof -
  from unit_facts[OF U] have u: "u \<noteq> []" "\<not> is_space (hd u)" "\<not> is_space (last u)"
    by (auto simp: upper_def hd_map last_map is_space_upper)
  from num have hdnum: "\<not> is_space (hd num)"
    by (cases num) (auto dest: num_not_space)
  have "strip ((num @ ws @ u) @ t) = (num @ ws @ u) @ rev (dropWhile is_space (rev t))"
    using num(1) u hdnum by (intro strip_framed) auto
  then have "upper (strip (num @ ws @ u @ t)) = num @ ws @ upper u @ upper (rev (dropWhile is_space (rev t)))"
    using num(2) ws by (simp add: upper_append upper_num upper_space)
  then show ?thesis
    using bandwidth_match_shape[OF num ws U] by simp
qed

lemma convert_ignores_tail:
  assumes "num \<noteq> []" "list_all is_num_char num" "list_all is_space ws"
    "upper u \<in> set units"
  shows "convert_bandwidth_to_bytes (num @ ws @ u @ t) = convert_bandwidth_to_bytes (num @ ws @ u)"
  using convert_shape[OF assms, of t] convert_shape[OF assms, of "[]"]
  by (simp add: convert_bandwidth_to_bytes_def)

lemma convert_leading_other:
  assumes "strip s = c # r" "\<not> is_num_char c"
  shows "convert_bandwidth_to_bytes s = Inr 0"
  using assms by (simp add: convert_bandwidth_to_bytes_def bandwidth_match_def upper_def is_num_char_upper)

lemma convert_blank:
  assumes "strip s = []"
  shows "convert_bandwidth_to_bytes s = Inr 0"
  using assms by (simp add: convert_bandwidth_to_bytes_def bandwidth_match_def upper_def)

section \<open>Facts about rounding to binary64\<close>

lemma powi_less_iff: "(2::rat) powi a < 2 powi b \<longleftrightarrow> a < b"
proof
  assume "(2::rat) powi a < 2 powi b"
  show "a < b"
  proof (rule ccontr)
    assume "\<not> a < b"
    then have "(2::rat) powi b \<le> 2 powi a" by (intro power_int_increasing) auto
    with \<open>(2::rat) powi a < 2 powi b\<close> show False by simp
  qed
next
  assume "a < b" then show "(2::rat) powi a < 2 powi b"
    by (intro power_int_strict_increasing) auto
qed

lemma powi_le_iff: "(2::rat) powi a \<le> 2 powi b \<longleftrightarrow> a \<le> b"
  using powi_less_iff[of b a] by (auto simp: not_less[symmetric])

lemma powi_pos: "0 < (2::rat) powi a"
  by simp

lemma powi_add: "(2::rat) powi (a + b) = 2 powi a * 2 powi b"
  by (simp add: power_int_add)

lemma powi_diff: "(2::rat) powi (a - b) = 2 powi a / 2 powi b"
  by (simp add: power_int_diff)

lemma bitlen_powi_bounds:
  assumes "0 < a"
  shows "(2::rat) powi (bitlen a - 1) \<le> of_int a" "of_int a < (2::rat) powi bitlen a"
proof -
  from bitlen_bounds[OF assms] have lo: "2 ^ nat (bitlen a - 1) \<le> a" and hi: "a < 2 ^ nat (bitlen a)"
    by auto
  have b1: "1 \<le> bitlen a" using assms bitlen_eq_zero_iff[of a] bitlen_nonneg[of a] by linarith
  have "(2::rat) powi (bitlen a - 1) = 2 ^ nat (bitlen a - 1)"
    using b1 by (simp add: power_int_def)
  also have "\<dots> = of_int (2 ^ nat (bitlen a - 1))" by simp
  also have "\<dots> \<le> of_int a" using lo by (simp only: of_int_le_iff)
  finally show "(2::rat) powi (bitlen a - 1) \<le> of_int a" .
  have "(of_int a :: rat) < of_int (2 ^ nat (bitlen a))" using hi by (simp only: of_int_less_iff)
  also have "\<dots> = 2 ^ nat (bitlen a)" by simp
  also have "\<dots> = (2::rat) powi bitlen a" using b1 by (simp add: power_int_def)
  finally show "of_int a < (2::rat) powi bitlen a" .
qed

lemma ilog2_bounds:
  assumes "0 < q"
  shows "2 powi ilog2 q \<le> q" "q < 2 powi (ilog2 q + 1)"
proof -
  obtain a b where ab: "quotient_of q = (a, b)" by (cases "quotient_of q")
  then have b: "0 < b" and q: "q = of_int a / of_int b"
    by (auto dest: quotient_of_denom_pos quotient_of_div)
  with assms have a: "0 < a" by (simp add: zero_less_divide_iff)
  define d where "d = bitlen a - bitlen b"
  note A = bitlen_powi_bounds[OF a] and B = bitlen_powi_bounds[OF b]
  have bpos: "(0::rat) < of_int b" using b by simp
  have lo: "2 powi (d - 1) \<le> q"
  proof -
    have "(2::rat) powi (d - 1) = 2 powi (bitlen a - 1) / 2 powi bitlen b"
      by (simp add: d_def powi_diff[symmetric] algebra_simps)
    also have "\<dots> \<le> of_int a / 2 powi bitlen b"
      using A(1) by (simp add: divide_right_mono)
    also have "\<dots> \<le> of_int a / of_int b"
      using B(2) a bpos by (intro divide_left_mono) (auto intro: mult_pos_pos)
    finally show ?thesis by (simp add: q)
  qed
  have hi: "q < 2 powi (d + 1)"
  proof -
    have "q = of_int a / of_int b" by (rule q)
    also have "\<dots> < 2 powi bitlen a / of_int b"
      using A(2) bpos by (simp add: divide_strict_right_mono)
    also have "\<dots> \<le> 2 powi bitlen a / 2 powi (bitlen b - 1)"
      using B(1) bpos by (intro divide_left_mono) (auto intro: mult_pos_pos)
    also have "\<dots> = 2 powi (d + 1)"
      by (simp add: d_def powi_diff[symmetric] algebra_simps)
    finally show ?thesis .
  qed
  have il: "ilog2 q = (if 2 powi d \<le> q then d else d - 1)"
    by (simp add: ilog2_def ab d_def Let_def)
  show "2 powi ilog2 q \<le> q" using lo by (simp add: il)
  show "q < 2 powi (ilog2 q + 1)" using hi by (auto simp: il not_le)
qed

lemma ilog2_less: "0 < q \<Longrightarrow> q < 2 powi k \<Longrightarrow> ilog2 q < k"
  using ilog2_bounds(1)[of q] powi_less_iff[of "ilog2 q" k] by simp

lemma ilog2_ge: "0 < q \<Longrightarrow> 2 powi k \<le> q \<Longrightarrow> k \<le> ilog2 q"
  using ilog2_bounds(2)[of q] powi_less_iff[of k "ilog2 q + 1"] by simp


lemma round_half_even_of_int: "round_half_even (of_int n) = n"
  by (simp add: round_half_even_def)

lemma round_half_even_error: "\<bar>of_int (round_half_even r) - r\<bar> \<le> 1 / 2"
proof -
  have "of_int \<lfloor>r\<rfloor> \<le> r" "r < of_int \<lfloor>r\<rfloor> + 1" by linarith+
  then show ?thesis by (auto simp: round_half_even_def Let_def)
qed

lemma round_half_even_le: "r \<le> of_int n \<Longrightarrow> round_half_even r \<le> n"
proof -
  assume r: "r \<le> of_int n"
  show ?thesis
  proof (cases "r = of_int n")
    case True then show ?thesis by (simp add: round_half_even_of_int)
  next
    case False
    with r have "r < of_int n" by simp
    then have "\<lfloor>r\<rfloor> < n" by (simp add: floor_less_iff)
    then show ?thesis by (auto simp: round_half_even_def Let_def)
  qed
qed

lemma round_half_even_ge: "of_int n \<le> r \<Longrightarrow> n \<le> round_half_even r"
proof -
  assume "of_int n \<le> r"
  then have "n \<le> \<lfloor>r\<rfloor>" by (simp add: le_floor_iff)
  then show ?thesis by (auto simp: round_half_even_def Let_def)
qed

lemma round_double_unfold:
  "0 < q \<Longrightarrow> round_double q =
     (if 1024 < bitlen (round_half_even (q / 2 powi dexp q)) + dexp q then Infinity
      else Finite (of_int (round_half_even (q / 2 powi dexp q)) * 2 powi dexp q))"
  by (simp add: round_double_def Let_def)

lemma significand_bound:
  assumes "0 < q"
  shows "0 \<le> round_half_even (q / 2 powi dexp q)" "round_half_even (q / 2 powi dexp q) \<le> 2 ^ 53"
proof -
  have "(0::rat) \<le> q / 2 powi dexp q" using assms by simp
  then have "of_int 0 \<le> q / 2 powi dexp q" by simp
  then show "0 \<le> round_half_even (q / 2 powi dexp q)" by (rule round_half_even_ge)
  have "q < 2 powi (ilog2 q + 1)" by (rule ilog2_bounds(2)[OF assms])
  also have "\<dots> \<le> 2 powi (dexp q + 53)"
    by (simp add: powi_le_iff dexp_def)
  finally have "q < 2 powi dexp q * 2 ^ 53" by (simp add: powi_add)
  then have "q / 2 powi dexp q < 2 ^ 53"
    by (simp add: pos_divide_less_eq mult.commute)
  then have "q / 2 powi dexp q \<le> of_int (2 ^ 53)" by simp
  then show "round_half_even (q / 2 powi dexp q) \<le> 2 ^ 53" by (rule round_half_even_le)
qed

lemma round_double_exact:
  assumes m: "0 \<le> m" "m < 2 ^ 53" and e: "- 1074 \<le> e" and fin: "bitlen m + e \<le> 1024"
  shows "round_double (of_int m * 2 powi e) = Finite (of_int m * 2 powi e)"
proof (cases "m = 0")
  case True
  then show ?thesis by (simp add: round_double_def)
next
  case False
  with m have mpos: "0 < m" by simp
  define q :: rat where "q = of_int m * 2 powi e"
  have qpos: "0 < q" using mpos by (simp add: q_def)
  have "(of_int m :: rat) < of_int (2 ^ 53)" using m(2) by (simp only: of_int_less_iff)
  then have "q < 2 ^ 53 * 2 powi e" by (simp add: q_def)
  also have "\<dots> = 2 powi (53 + e)" by (simp add: powi_add)
  finally have "ilog2 q < 53 + e" using qpos by (intro ilog2_less)
  with e have le: "dexp q \<le> e" by (simp add: dexp_def)
  define E where "E = dexp q"
  define k where "k = nat (e - E)"
  have ek: "e = E + int k" using le by (simp add: k_def E_def)
  have qE: "q = of_int m * 2 ^ k * 2 powi E"
    unfolding q_def ek by (simp add: powi_add)
  have "q / 2 powi E = of_int (m * 2 ^ k)"
    unfolding qE by simp
  then have r: "round_half_even (q / 2 powi E) = m * 2 ^ k"
    by (simp only: round_half_even_of_int)
  have bl: "bitlen (m * 2 ^ k) + E = bitlen m + e"
    using mpos unfolding ek by simp
  have val: "of_int (m * 2 ^ k) * 2 powi E = q"
    unfolding qE by simp
  have "round_double q = Finite q"
    unfolding round_double_unfold[OF qpos] E_def[symmetric] r bl val using fin by simp
  then show ?thesis by (simp only: q_def)
qed

lemma round_double_idem:
  assumes "0 \<le> q" "round_double q = Finite v"
  shows "round_double v = Finite v"
proof (cases "q = 0")
  case True
  with assms show ?thesis by (auto simp: round_double_def)
next
  case False
  with assms have qpos: "0 < q" by simp
  define m where "m = round_half_even (q / 2 powi dexp q)"
  from assms(2) have fin: "bitlen m + dexp q \<le> 1024" and v: "v = of_int m * 2 powi dexp q"
    by (auto simp: round_double_unfold[OF qpos] m_def split: if_splits)
  from significand_bound[OF qpos] have mb: "0 \<le> m" "m \<le> 2 ^ 53" by (simp_all add: m_def)
  have e: "- 1074 \<le> dexp q" by (simp add: dexp_def)
  show ?thesis
  proof (cases "m = 2 ^ 53")
    case False
    with mb have "m < 2 ^ 53" by simp
    from round_double_exact[OF mb(1) this e fin] show ?thesis by (simp add: v)
  next
    case True
    have v': "v = of_int 1 * 2 powi (dexp q + 53)" by (simp add: v True powi_add)
    have "bitlen (2 ^ 53 :: int) = 54" using bitlen_twopow_add_eq[of 0 53] by simp
    with fin True have "bitlen 1 + (dexp q + 53) \<le> 1024"
      using bitlen_twopow_add_eq[of 0 0] by simp
    from round_double_exact[of 1 "dexp q + 53", OF _ _ _ this] e show ?thesis
      by (simp add: v')
  qed
qed

lemma round_double_finite:
  assumes "0 \<le> q" "q < 2 ^ 1023"
  shows "\<exists>v. round_double q = Finite v \<and> 0 \<le> v"
proof (cases "q = 0")
  case True
  then show ?thesis by (simp add: round_double_def)
next
  case False
  with assms have qpos: "0 < q" by simp
  define m where "m = round_half_even (q / 2 powi dexp q)"
  from significand_bound[OF qpos] have mb: "0 \<le> m" "m \<le> 2 ^ 53" by (simp_all add: m_def)
  have "q < 2 powi 1023" using assms(2) by simp
  then have "ilog2 q < 1023" using qpos by (intro ilog2_less)
  then have e: "dexp q \<le> 970" by (simp add: dexp_def)
  have "bitlen m \<le> 54" using mb(2) by (simp add: bitlen_le_iff_power)
  with e have "\<not> 1024 < bitlen m + dexp q" by simp
  then show ?thesis using mb(1)
    by (simp add: round_double_unfold[OF qpos] m_def[symmetric])
qed

section \<open>Facts about reading decimal numbers\<close>

lemma digits_val_snoc: "digits_val (s @ [c]) = 10 * digits_val s + digit_val c"
  by (simp add: digits_val_def)

lemma digits_val_append: "digits_val (a @ b) = digits_val a * 10 ^ length b + digits_val b"
proof (induction b rule: rev_induct)
  case Nil
  then show ?case by (simp add: digits_val_def)
next
  case (snoc c b)
  have "digits_val (a @ b @ [c]) = 10 * digits_val (a @ b) + digit_val c"
    using digits_val_snoc[of "a @ b" c] by simp
  then show ?case by (simp add: snoc.IH digits_val_snoc algebra_simps)
qed

lemma strip_no_space:
  assumes "\<forall>c\<in>set s. \<not> is_space c"
  shows "strip s = s"
proof (cases s)
  case Nil
  then show ?thesis by (simp add: strip_def)
next
  case (Cons x xs)
  have ne: "s \<noteq> []" using Cons by simp
  have "hd s \<in> set s" "last s \<in> set s" using ne by simp_all
  with assms ne have "s \<noteq> []" "\<not> is_space (hd s)" "\<not> is_space (last s)"
    by blast+
  from strip_framed[OF this, of "[]"] show ?thesis by simp
qed

lemma round_double_nonneg: "round_double q = Finite v \<Longrightarrow> 0 \<le> v"
proof (cases "0 < q")
  case True
  assume "round_double q = Finite v"
  then show ?thesis using significand_bound(1)[OF True]
    by (auto simp: round_double_unfold[OF True] split: if_splits)
next
  case False
  assume "round_double q = Finite v"
  with False show ?thesis by (simp add: round_double_def)
qed

lemma py_float_valid:
  assumes "valid_decimal num"
  shows "py_float num = Inr (round_double (decimal_value num))"
proof -
  from assms have numc: "\<forall>c\<in>set num. is_num_char c"
    and dots: "length (filter (\<lambda>c. c = CHR ''.'') num) \<le> 1"
    and dig: "filter is_digit num \<noteq> []"
    by (simp_all add: valid_decimal_def list_all_iff)
  have st: "strip num = num"
    using numc by (intro strip_no_space) (auto dest: num_not_space)
  define ip where "ip = takeWhile is_digit num"
  define r where "r = dropWhile is_digit num"
  have split: "num = ip @ r" by (simp add: ip_def r_def)
  show ?thesis
  proof (cases r)
    case Nil
    then have "num = ip" using split by simp
    with dig have "ip \<noteq> []" by auto
    then show ?thesis using Nil
      by (simp add: py_float_def st Let_def ip_def[symmetric] r_def[symmetric] decimal_value_def
          digits_val_def)
  next
    case (Cons c fp)
    have "\<not> is_digit c" using Cons hd_dropWhile[of is_digit num] by (simp add: r_def)
    moreover have "is_num_char c" using numc split Cons by auto
    ultimately have c: "c = CHR ''.''" by (simp add: is_num_char_def)
    have nodig: "\<not> is_digit (CHR ''.'')" by (simp add: is_digit_def)
    have "filter (\<lambda>c. c = CHR ''.'') ip = []"
      using nodig by (auto simp: ip_def filter_empty_conv dest: set_takeWhileD)
    with dots split Cons c have "filter (\<lambda>c. c = CHR ''.'') fp = []" by simp
    then have "\<forall>x\<in>set fp. x \<noteq> CHR ''.''" by (simp add: filter_empty_conv)
    moreover have "\<forall>x\<in>set fp. is_num_char x" using numc split Cons by auto
    ultimately have fpd: "list_all is_digit fp" by (auto simp: list_all_iff is_num_char_def)
    have some: "ip \<noteq> [] \<or> fp \<noteq> []"
      using dig split Cons c nodig by (cases ip; cases fp) auto
    show ?thesis using Cons c fpd some
      by (simp add: py_float_def st Let_def ip_def[symmetric] r_def[symmetric] decimal_value_def
          digits_val_append add_divide_distrib)
  qed
qed

lemma float_mul_one: "float_mul (round_double q) 1 = round_double q"
proof (cases "round_double q")
  case (Finite v)
  have "round_double v = Finite v"
  proof (cases "0 \<le> q")
    case True
    from round_double_idem[OF True Finite] show ?thesis .
  next
    case False
    with Finite have "v = 0" by (simp add: round_double_def)
    then show ?thesis by (simp add: round_double_def)
  qed
  then show ?thesis by (simp add: float_mul_def Finite)
next
  case Infinity
  then show ?thesis by (simp add: float_mul_def)
qed

lemma float_mul_nonneg: "float_mul x k = Finite v \<Longrightarrow> 0 \<le> v"
  by (cases x) (auto simp: float_mul_def dest: round_double_nonneg)

lemma convert_valid:
  assumes "valid_decimal num" "list_all is_space ws" "upper u \<in> set units"
  shows "convert_bandwidth_to_bytes (num @ ws @ u) =
           int_of_float (float_mul (round_double (decimal_value num)) (unit_scale (upper u)))"
proof -
  from assms(1) have num: "num \<noteq> []" "list_all is_num_char num"
    by (auto simp: valid_decimal_def)
  from convert_shape[OF num assms(2,3), of "[]"]
  have m: "bandwidth_match (upper (strip (num @ ws @ u))) = Some (num, upper u)" by simp
  show ?thesis using assms(3)
    by (auto simp: convert_bandwidth_to_bytes_def m py_float_valid[OF assms(1)] unit_scale_def
        units_def float_mul_one)
qed

section \<open>Facts about the address pattern\<close>

lemma digit_not_space: "is_digit c \<Longrightarrow> \<not> is_space c"
  by (auto simp: is_digit_def is_space_def)

lemma digit_not_dot: "is_digit c \<Longrightarrow> c \<noteq> CHR ''.''"
  by (auto simp: is_digit_def)

lemma digits_no_dot:
  assumes "list_all is_digit d"
  shows "CHR ''.'' \<notin> set d"
proof
  assume "CHR ''.'' \<in> set d"
  with assms have "is_digit (CHR ''.'')" by (simp add: list_all_iff)
  then show False by (simp add: is_digit_def)
qed

lemma octet_dot_Some:
  assumes "octet_dot s = Some r"
  obtains d where "s = d @ CHR ''.'' # r" "d \<noteq> []" "length d \<le> 3" "list_all is_digit d"
proof -
  define d where "d = takeWhile is_digit s"
  from assms have len: "1 \<le> length d" "length d \<le> 3" and dr: "dropWhile is_digit s = CHR ''.'' # r"
    by (auto simp: octet_dot_def Let_def d_def split: if_splits list.splits)
  have "s = d @ CHR ''.'' # r"
    using takeWhile_dropWhile_id[of is_digit s] by (simp add: d_def dr)
  moreover have "d \<noteq> []" using len by auto
  moreover have "list_all is_digit d" by (auto simp: d_def list_all_iff dest: set_takeWhileD)
  ultimately show thesis using len that by blast
qed

lemma octet_end_True:
  assumes "octet_end s"
  obtains d where "s = d \<or> s = d @ [CHR 0x0A]" "d \<noteq> []" "list_all is_digit d"
proof -
  define d where "d = takeWhile is_digit s"
  from assms have len: "1 \<le> length d" and dr: "dropWhile is_digit s = [] \<or> dropWhile is_digit s = [CHR 0x0A]"
    by (auto simp: octet_end_def Let_def d_def)
  have "s = d @ dropWhile is_digit s"
    using takeWhile_dropWhile_id[of is_digit s] by (simp add: d_def)
  with dr have "s = d \<or> s = d @ [CHR 0x0A]" by (metis append_Nil2)
  moreover have "d \<noteq> []" using len by auto
  moreover have "list_all is_digit d" by (auto simp: d_def list_all_iff dest: set_takeWhileD)
  ultimately show thesis using that by blast
qed

lemma split_acc_no_sep:
  "sep \<notin> set d \<Longrightarrow> split_acc sep cur (d @ rest) = split_acc sep (cur @ d) rest"
  by (induction d arbitrary: cur) auto

lemma split_acc_piece:
  "sep \<notin> set d \<Longrightarrow> split_acc sep cur (d @ sep # rest) = (cur @ d) # split_acc sep [] rest"
  by (simp add: split_acc_no_sep)

lemma split_acc_last: "sep \<notin> set d \<Longrightarrow> split_acc sep cur d = [cur @ d]"
  using split_acc_no_sep[of sep d cur "[]"] by simp

lemma py_int_digits:
  assumes "d \<noteq> []" "list_all is_digit d"
  shows "py_int d = Inr (digits_val d)" "py_int (d @ [CHR 0x0A]) = Inr (digits_val d)"
proof -
  have ns: "\<forall>c\<in>set d. \<not> is_space c" using assms(2) by (auto simp: list_all_iff dest: digit_not_space)
  then have "strip d = d" by (rule strip_no_space)
  then show "py_int d = Inr (digits_val d)" using assms by (simp add: py_int_def)
  have "hd d \<in> set d" "last d \<in> set d" using assms(1) by simp_all
  with ns assms(1) have "strip (d @ [CHR 0x0A]) = d @ rev (dropWhile is_space (rev [CHR 0x0A]))"
    by (intro strip_framed) auto
  then have "strip (d @ [CHR 0x0A]) = d" by (simp add: is_space_def)
  then show "py_int (d @ [CHR 0x0A]) = Inr (digits_val d)" using assms by (simp add: py_int_def)
qed

lemma ip_parts:
  assumes "ip_pattern_match ip"
  obtains a b c d where "map_err py_int (str_split ip (CHR ''.'')) = Inr [a, b, c, d]"
proof -
  from assms obtain r1 r2 r3 where o1: "octet_dot ip = Some r1" and o2: "octet_dot r1 = Some r2"
    and o3: "octet_dot r2 = Some r3" and o4: "octet_end r3"
    by (auto simp: ip_pattern_match_def split: option.splits)
  from o1 obtain d1 where d1: "ip = d1 @ CHR ''.'' # r1" "d1 \<noteq> []" "list_all is_digit d1"
    by (rule octet_dot_Some)
  from o2 obtain d2 where d2: "r1 = d2 @ CHR ''.'' # r2" "d2 \<noteq> []" "list_all is_digit d2"
    by (rule octet_dot_Some)
  from o3 obtain d3 where d3: "r2 = d3 @ CHR ''.'' # r3" "d3 \<noteq> []" "list_all is_digit d3"
    by (rule octet_dot_Some)
  from o4 obtain d4 where d4: "r3 = d4 \<or> r3 = d4 @ [CHR 0x0A]" "d4 \<noteq> []" "list_all is_digit d4"
    by (rule octet_end_True)
  have nd: "CHR ''.'' \<notin> set d1" "CHR ''.'' \<notin> set d2" "CHR ''.'' \<notin> set d3" "CHR ''.'' \<notin> set d4"
    using d1(3) d2(3) d3(3) d4(3) by (simp_all add: digits_no_dot)
  have nd4: "CHR ''.'' \<notin> set r3" using d4(1) nd(4) by auto
  have s3: "split_acc (CHR ''.'') [] r3 = [r3]"
    using split_acc_last[OF nd4, of "[]"] by simp
  have s2: "split_acc (CHR ''.'') [] r2 = [d3, r3]"
    unfolding d3(1) using split_acc_piece[OF nd(3), of "[]" r3] s3 by simp
  have s1: "split_acc (CHR ''.'') [] r1 = [d2, d3, r3]"
    unfolding d2(1) using split_acc_piece[OF nd(2), of "[]" r2] s2 by simp
  have sp: "str_split ip (CHR ''.'') = [d1, d2, d3, r3]"
    unfolding str_split_def d1(1) using split_acc_piece[OF nd(1), of "[]" r1] s1 by simp
  have "py_int r3 = Inr (digits_val d4)"
    using d4(1) py_int_digits[OF d4(2,3)] by auto
  then have "map_err py_int (str_split ip (CHR ''.'')) =
      Inr [digits_val d1, digits_val d2, digits_val d3, digits_val d4]"
    by (simp add: sp py_int_digits(1)[OF d1(2,3)] py_int_digits(1)[OF d2(2,3)]
        py_int_digits(1)[OF d3(2,3)])
  then show thesis by (rule that)
qed

lemma is_private_ip_total: "\<exists>b. is_private_ip ip = Inr b"
proof (cases "ip_pattern_match ip")
  case False
  then have "is_private_ip ip = Inr False" by (simp add: is_private_ip_def)
  then show ?thesis by blast
next
  case True
  then obtain a b c d where "map_err py_int (str_split ip (CHR ''.'')) = Inr [a, b, c, d]"
    by (rule ip_parts)
  then have "is_private_ip ip =
      Inr (a = 10 \<or> (a = 172 \<and> 16 \<le> b \<and> b \<le> 31) \<or> (a = 192 \<and> b = 168))"
    using True
    by (auto simp: is_private_ip_def first_is_def first_and_second_def index_def
        split: bool.splits)
  then show ?thesis by blast
qed

section \<open>Facts about dotted quads\<close>






















section \<open>Properties of the IP classifier\<close>







section \<open>Properties of the bandwidth parser\<close>

text \<open>
  Claim C1: the parser never raises; a literal whose numeric part is made of digits and
  dots but is no decimal number, such as \<^verbatim>\<open>1.2.3 KB\<close>, yields zero. The pattern
  accepts that literal, and \<^verbatim>\<open>float\<close> of its group 1 raises \<^verbatim>\<open>ValueError\<close>.
\<close>

theorem convert_bandwidth_raises_on_two_dots:
  "convert_bandwidth_to_bytes ''1.2.3 KB'' = Inl ValueError"
  by code_simp

lemma parse_examples:
  "convert_bandwidth_to_bytes ''12 KB'' = Inr 12288"
  "convert_bandwidth_to_bytes ''2.5 MB'' = Inr 2621440"
  "convert_bandwidth_to_bytes ''1 GB'' = Inr 1073741824"
  "convert_bandwidth_to_bytes ''0.5 TB'' = Inr 549755813888"
  "convert_bandwidth_to_bytes ''garbage'' = Inr 0"
  "convert_bandwidth_to_bytes [] = Inr 0"
  by code_simp+

lemma unit_scale_values:
  "unit_scale ''B'' = 1" "unit_scale ''KB'' = 1024" "unit_scale ''MB'' = 1024 ^ 2"
  "unit_scale ''GB'' = 1024 ^ 3" "unit_scale ''TB'' = 1024 ^ 4"
  by (simp_all add: unit_scale_def)

lemma int_of_float_floor:
  "int_of_float (float_mul x k) =
     (case float_mul x k of Infinity \<Rightarrow> Inl OverflowError | Finite v \<Rightarrow> Inr \<lfloor>v\<rfloor>)"
  by (cases "float_mul x k") (auto simp: int_of_float_def dest: float_mul_nonneg)

text \<open>
  Claim C4, as amended: for a decimal number, optional whitespace and a unit in any
  letter case, the parser takes the binary64 number nearest to the decimal magnitude,
  multiplies it by the unit's power of 1024 in binary64 arithmetic and truncates the product
  to an integer (\<^verbatim>\<open>OverflowError\<close> when the product is infinite); the scale factors are
  1, 1024, \<open>1024\<^sup>2\<close>, \<open>1024\<^sup>3\<close>, \<open>1024\<^sup>4\<close> (so \<^verbatim>\<open>KB\<close> is never read as \<^verbatim>\<open>B\<close>), and the
  six literals of the specification give the byte counts stated there.
\<close>

theorem convert_bandwidth_scaling:
  "(valid_decimal num \<and> list_all is_space ws \<and> upper u \<in> set units \<longrightarrow>
      convert_bandwidth_to_bytes (num @ ws @ u) =
        (case float_mul (round_double (decimal_value num)) (unit_scale (upper u)) of
           Infinity \<Rightarrow> Inl OverflowError
         | Finite v \<Rightarrow> Inr \<lfloor>v\<rfloor>))
   \<and> unit_scale ''B'' = 1 \<and> unit_scale ''KB'' = 1024 \<and> unit_scale ''MB'' = 1024 ^ 2
   \<and> unit_scale ''GB'' = 1024 ^ 3 \<and> unit_scale ''TB'' = 1024 ^ 4
   \<and> convert_bandwidth_to_bytes ''12 KB'' = Inr 12288
   \<and> convert_bandwidth_to_bytes ''2.5 MB'' = Inr 2621440
   \<and> convert_bandwidth_to_bytes ''1 GB'' = Inr 1073741824
   \<and> convert_bandwidth_to_bytes ''0.5 TB'' = Inr 549755813888
   \<and> convert_bandwidth_to_bytes ''garbage'' = Inr 0
   \<and> convert_bandwidth_to_bytes [] = Inr 0"
proof -
  have "convert_bandwidth_to_bytes (num @ ws @ u) =
          (case float_mul (round_double (decimal_value num)) (unit_scale (upper u)) of
             Infinity \<Rightarrow> Inl OverflowError
           | Finite v \<Rightarrow> Inr \<lfloor>v\<rfloor>)"
    if "valid_decimal num \<and> list_all is_space ws \<and> upper u \<in> set units"
    using that convert_valid[of num ws u] by (simp only: int_of_float_floor)
  then have scaled:
    "valid_decimal num \<and> list_all is_space ws \<and> upper u \<in> set units \<longrightarrow>
       convert_bandwidth_to_bytes (num @ ws @ u) =
         (case float_mul (round_double (decimal_value num)) (unit_scale (upper u)) of
            Infinity \<Rightarrow> Inl OverflowError
          | Finite v \<Rightarrow> Inr \<lfloor>v\<rfloor>)"
    by (rule impI)
  show ?thesis
    by (intro conjI scaled parse_examples unit_scale_values)
qed

text \<open>The amended claim C4 at the literal \<^verbatim>\<open>2.5 mb\<close>.\<close>

theorem convert_bandwidth_scaling_witness:
  "valid_decimal ''2.5'' \<and> list_all is_space '' '' \<and> upper ''mb'' \<in> set units
   \<and> convert_bandwidth_to_bytes ''2.5 mb'' = Inr 2621440"
proof -
  have h: "valid_decimal ''2.5'' \<and> list_all is_space '' '' \<and> upper ''mb'' \<in> set units"
    by code_simp
  have rhs: "(case float_mul (round_double (decimal_value ''2.5'')) (unit_scale (upper ''mb'')) of
               Infinity \<Rightarrow> Inl OverflowError
             | Finite v \<Rightarrow> Inr \<lfloor>v\<rfloor>) = Inr 2621440"
    by code_simp
  from convert_bandwidth_scaling[of "''2.5''" "'' ''" "''mb''"] h
  have "convert_bandwidth_to_bytes (''2.5'' @ '' '' @ ''mb'') = Inr 2621440"
    by (simp only: rhs simp_thms)
  with h show ?thesis by simp
qed

text \<open>
  Claim C4 as stated, with the decimal magnitude itself scaled and truncated, fails: the
  magnitude of \<^verbatim>\<open>0.99999999999999999999 B\<close> truncates to 0, but the nearest binary64
  number is 1.0 and the parser returns 1.
\<close>

theorem convert_bandwidth_not_exact_decimal:
  "valid_decimal ''0.99999999999999999999''
   \<and> convert_bandwidth_to_bytes ''0.99999999999999999999 B'' = Inr 1
   \<and> \<lfloor>decimal_value ''0.99999999999999999999'' * of_int (unit_scale ''B'')\<rfloor> = 0"
  by code_simp

text \<open>
  Claim C10: the pattern is matched at the start of the stripped, upper-cased text and
  nothing after the unit is looked at. A run of digits and dots, whitespace and a unit
  followed by any text parses like the same literal without that text (an exception
  included); text whose first character after stripping is neither a digit nor a dot
  parses to 0.
\<close>

theorem convert_bandwidth_prefix_only:
  "(num \<noteq> [] \<and> list_all is_num_char num \<and> list_all is_space ws \<and> upper u \<in> set units \<longrightarrow>
      convert_bandwidth_to_bytes (num @ ws @ u @ t) = convert_bandwidth_to_bytes (num @ ws @ u))
   \<and> (strip s = c # r \<and> \<not> is_num_char c \<longrightarrow> convert_bandwidth_to_bytes s = Inr 0)"
  using convert_ignores_tail[of num ws u t] convert_leading_other[of s c r] by blast

text \<open>Claim C10 at \<^verbatim>\<open>5 MBs\<close>, \<^verbatim>\<open>12 KB/s\<close> and \<^verbatim>\<open>x5 KB\<close>.\<close>

theorem convert_bandwidth_prefix_only_witness:
  "convert_bandwidth_to_bytes ''5 MBs'' = convert_bandwidth_to_bytes ''5 MB''
   \<and> convert_bandwidth_to_bytes ''5 MB'' = Inr 5242880
   \<and> convert_bandwidth_to_bytes ''12 KB/s'' = convert_bandwidth_to_bytes ''12 KB''
   \<and> convert_bandwidth_to_bytes ''x5 KB'' = Inr 0"
proof -
  have h1: "''5'' \<noteq> [] \<and> list_all is_num_char ''5'' \<and> list_all is_space '' '' \<and> upper ''MB'' \<in> set units"
    by code_simp
  have h2: "''12'' \<noteq> [] \<and> list_all is_num_char ''12'' \<and> list_all is_space '' '' \<and> upper ''KB'' \<in> set units"
    by code_simp
  have h3: "strip ''x5 KB'' = CHR ''x'' # ''5 KB'' \<and> \<not> is_num_char (CHR ''x'')"
    by code_simp
  have v: "convert_bandwidth_to_bytes ''5 MB'' = Inr 5242880" by code_simp
  from convert_bandwidth_prefix_only[of "''5''" "'' ''" "''MB''" "''s''" "''x5 KB''" "CHR ''x''" "''5 KB''"] h1 h3
  have a: "convert_bandwidth_to_bytes (''5'' @ '' '' @ ''MB'' @ ''s'') = convert_bandwidth_to_bytes (''5'' @ '' '' @ ''MB'')"
    and c: "convert_bandwidth_to_bytes ''x5 KB'' = Inr 0" by blast+
  from convert_bandwidth_prefix_only[of "''12''" "'' ''" "''KB''" "''/s''" "''x5 KB''" "CHR ''x''" "''5 KB''"] h2
  have b: "convert_bandwidth_to_bytes (''12'' @ '' '' @ ''KB'' @ ''/s'') = convert_bandwidth_to_bytes (''12'' @ '' '' @ ''KB'')"
    by blast
  from a b c v show ?thesis by simp
qed

section \<open>Properties of the report extractor\<close>

lemma sum_rows_acc:
  "sum_rows rows t =
     (case sum_results (map (\<lambda>cols. convert_bandwidth_to_bytes (strip (cols ! 5)))
                           (filter included rows)) of
        Inl e \<Rightarrow> Inl e
      | Inr s \<Rightarrow> Inr (t + s))"
proof (induction rows arbitrary: t)
  case Nil
  then show ?case by simp
next
  case (Cons cols rows)
  obtain b where b: "is_private_ip (strip (cols ! 0)) = Inr b"
    using is_private_ip_total by blast
  show ?case
  proof (cases "included cols")
    case True
    then show ?thesis using b
      by (auto simp: included_def Cons.IH Let_def split: sum.splits)
  next
    case False
    then show ?thesis using b
      by (auto simp: included_def Cons.IH Let_def)
  qed
qed

lemma sum_results_Inr: "sum_results (map Inr bs) = Inr (sum_list bs)"
  by (induction bs) simp_all

lemma extract_example_facts:
  "strip ''10.0.0.5'' = ''10.0.0.5''" "is_private_ip ''10.0.0.5'' = Inr True"
  "strip ''8.8.8.8'' = ''8.8.8.8''" "is_private_ip ''8.8.8.8'' = Inr False"
  "strip ''Others'' = ''Others''" "is_private_ip ''Others'' = Inr False"
  "convert_bandwidth_to_bytes (strip ''12 KB'') = Inr 12288"
  "convert_bandwidth_to_bytes (strip ''1 GB'') = Inr 1073741824"
  by code_simp+

text \<open>
  Claim C5: with no table on the page the extractor returns 0. With a table, the first two
  rows are dropped, and the result is the sum of the parsed sixth cells of exactly the
  remaining rows that have at least six cells and whose stripped first cell is
  \<^verbatim>\<open>Others\<close> or a private address; \<^const>\<open>sum_results\<close> is that sum (third conjunct), with
  the first exception of a cell's parse taking its place. The synthetic table of the
  specification, with any header rows and any middle cells, gives 1073754112.
\<close>

theorem extractor_sums_included_rows:
  "(fetch url = Inr None \<longrightarrow> fst (parse_awstats_monthly_page fetch url w) = Inr 0)
   \<and> (fetch url = Inr (Some tbl) \<longrightarrow>
        fst (parse_awstats_monthly_page fetch url w) =
          sum_results (map (\<lambda>cols. convert_bandwidth_to_bytes (strip (cols ! 5)))
                         (filter included (drop 2 tbl))))
   \<and> sum_results (map Inr bs) = Inr (sum_list bs)
   \<and> (fetch url =
         Inr (Some [h1, h2,
                    [''10.0.0.5'', a1, a2, a3, a4, ''12 KB''],
                    [''8.8.8.8'', b1, b2, b3, b4, ''5 MB''],
                    [''Others'', c1, c2, c3, c4, ''1 GB'']]) \<longrightarrow>
        fst (parse_awstats_monthly_page fetch url w) = Inr 1073754112)"
proof (intro conjI impI)
  assume "fetch url = Inr None"
  then show "fst (parse_awstats_monthly_page fetch url w) = Inr 0"
    by (simp add: parse_awstats_monthly_page_def)
next
  assume "fetch url = Inr (Some tbl)"
  then show "fst (parse_awstats_monthly_page fetch url w) =
          sum_results (map (\<lambda>cols. convert_bandwidth_to_bytes (strip (cols ! 5)))
                         (filter included (drop 2 tbl)))"
    by (simp add: parse_awstats_monthly_page_def sum_rows_acc split: sum.splits)
next
  show "sum_results (map Inr bs) = Inr (sum_list bs)" by (rule sum_results_Inr)
next
  assume "fetch url =
         Inr (Some [h1, h2,
                    [''10.0.0.5'', a1, a2, a3, a4, ''12 KB''],
                    [''8.8.8.8'', b1, b2, b3, b4, ''5 MB''],
                    [''Others'', c1, c2, c3, c4, ''1 GB'']])"
  then show "fst (parse_awstats_monthly_page fetch url w) = Inr 1073754112"
    by (simp add: parse_awstats_monthly_page_def extract_example_facts Let_def)
qed

text \<open>Claim C5 on a page without table, on a table with a short row, and on the
  synthetic table.\<close>

theorem extractor_sums_included_rows_witness:
  "fst (parse_awstats_monthly_page (\<lambda>u. Inr None) ''u'' \<lparr>stdout = [], requests = [], csv_file = None\<rparr>) = Inr 0
   \<and> fst (parse_awstats_monthly_page
          (\<lambda>u. Inr (Some [[''Host''], [], [''192.168.1.1'', ''1'', ''2'', ''3'', ''4'', ''1 KB''],
                          [''Others'', ''1'', ''2'', ''3'', ''4'', ''2 KB''], [''10.1.1.1'', ''9 KB'']]))
          ''u'' \<lparr>stdout = [], requests = [], csv_file = None\<rparr>) = Inr 3072
   \<and> fst (parse_awstats_monthly_page
          (\<lambda>u. Inr (Some [[], [],
                    [''10.0.0.5'', ''a'', ''b'', ''c'', ''d'', ''12 KB''],
                    [''8.8.8.8'', ''a'', ''b'', ''c'', ''d'', ''5 MB''],
                    [''Others'', ''a'', ''b'', ''c'', ''d'', ''1 GB'']]))
          ''u'' \<lparr>stdout = [], requests = [], csv_file = None\<rparr>) = Inr 1073754112"
proof -
  let ?w = "\<lparr>stdout = [], requests = [], csv_file = None\<rparr>"
  let ?t = "[[''Host''], [], [''192.168.1.1'', ''1'', ''2'', ''3'', ''4'', ''1 KB''],
                          [''Others'', ''1'', ''2'', ''3'', ''4'', ''2 KB''], [''10.1.1.1'', ''9 KB'']]"
  have s: "sum_results (map (\<lambda>cols. convert_bandwidth_to_bytes (strip (cols ! 5)))
                         (filter included (drop 2 ?t))) = Inr 3072"
    by code_simp
  have a: "fst (parse_awstats_monthly_page (\<lambda>u. Inr None) ''u'' ?w) = Inr 0"
    using extractor_sums_included_rows[of "\<lambda>u. Inr None" "''u''" ?w] by simp
  have b: "fst (parse_awstats_monthly_page (\<lambda>u. Inr (Some ?t)) ''u'' ?w) = Inr 3072"
    using extractor_sums_included_rows[of "\<lambda>u. Inr (Some ?t)" "''u''" ?w ?t] s by simp
  have c: "fst (parse_awstats_monthly_page
          (\<lambda>u. Inr (Some [[], [],
                    [''10.0.0.5'', ''a'', ''b'', ''c'', ''d'', ''12 KB''],
                    [''8.8.8.8'', ''a'', ''b'', ''c'', ''d'', ''5 MB''],
                    [''Others'', ''a'', ''b'', ''c'', ''d'', ''1 GB'']]))
          ''u'' ?w) = Inr 1073754112"
    using extractor_sums_included_rows[of
        "\<lambda>u. Inr (Some [[], [],
                    [''10.0.0.5'', ''a'', ''b'', ''c'', ''d'', ''12 KB''],
                    [''8.8.8.8'', ''a'', ''b'', ''c'', ''d'', ''5 MB''],
                    [''Others'', ''a'', ''b'', ''c'', ''d'', ''1 GB'']])" "''u''" ?w _ _
        "[]" "[]" "''a''" "''b''" "''c''" "''d''" "''a''" "''b''" "''c''" "''d''" "''a''" "''b''" "''c''" "''d''"]
    by simp
  from a b c show ?thesis by simp
qed

section \<open>Facts about the loops of the aggregator\<close>

lemma run_periods_append:
  "run_periods f (ps @ qs) d w =
     (case run_periods f ps d w of
        (Inl e, w') \<Rightarrow> (Inl e, w')
      | (Inr d', w') \<Rightarrow> run_periods f qs d' w')"
proof (induction ps arbitrary: d w)
  case Nil
  then show ?case by simp
next
  case (Cons p ps)
  obtain y m where p: "p = (y, m)" by (cases p)
  show ?case
    by (cases "process_period f y m d w") (auto simp: p Cons.IH split: sum.splits)
qed

lemma month_loop_run:
  assumes "sorted ms"
  shows "month_loop f sy sm ey em y ms d w =
           run_periods f (map (Pair y) (year_months sy sm ey em y ms)) d w"
  using assms
proof (induction ms arbitrary: d w)
  case Nil
  then show ?case by (simp add: year_months_def)
next
  case (Cons m ms)
  from Cons.prems have sorted: "sorted ms" and le: "\<forall>x\<in>set ms. m \<le> x" by auto
  note IH = Cons.IH[OF sorted]
  consider (skip) "y = sy \<and> m < sm" | (stop) "\<not> (y = sy \<and> m < sm)" "y = ey \<and> em < m"
    | (run) "\<not> (y = sy \<and> m < sm)" "\<not> (y = ey \<and> em < m)" by blast
  then show ?case
  proof cases
    case skip
    then show ?thesis using IH by (simp add: year_months_def)
  next
    case stop
    then have "\<forall>x\<in>set ms. y = ey \<and> em < x" using le by auto
    then have "year_months sy sm ey em y ms = []"
      by (auto simp: year_months_def filter_empty_conv)
    with stop have "year_months sy sm ey em y (m # ms) = []"
      by (simp add: year_months_def)
    then show ?thesis using stop by auto
  next
    case run
    then have ym: "year_months sy sm ey em y (m # ms) = m # year_months sy sm ey em y ms"
      by (simp add: year_months_def)
    show ?thesis
      using run by (cases "process_period f y m d w") (auto simp: ym IH split: sum.splits)
  qed
qed

lemma year_loop_run:
  "year_loop f sy sm ey em ys d w =
     run_periods f (concat (map (\<lambda>y. map (Pair y) (year_months sy sm ey em y [1..12])) ys)) d w"
proof (induction ys arbitrary: d w)
  case Nil
  then show ?case by simp
next
  case (Cons y ys)
  have s: "sorted [1..12::int]" by simp
  show ?case
    by (simp add: month_loop_run[OF s] run_periods_append Cons.IH split: prod.splits sum.splits)
qed


lemma map_shift_upto: "map (\<lambda>m. m + c) [lo..hi] = [lo + c..hi + c]"
proof (rule nth_equalityI)
  show "length (map (\<lambda>m. m + c) [lo..hi]) = length [lo + c..hi + c]" by simp
next
  fix k assume "k < length (map (\<lambda>m. m + c) [lo..hi])"
  then have "lo + int k \<le> hi" by simp
  then show "map (\<lambda>m. m + c) [lo..hi] ! k = [lo + c..hi + c] ! k" by simp
qed

lemma filter_range_upto:
  "filter (\<lambda>m. lo \<le> m \<and> m \<le> hi) [a..b] = [max a lo..min b hi]"
  by (rule sorted_distinct_set_unique) (auto simp: sorted_filter[where f = "\<lambda>x. x", simplified])

lemma year_months_range:
  assumes "1 \<le> sm" "sm \<le> 12" "1 \<le> em" "em \<le> 12"
  shows "year_months sy sm ey em y [1..12] =
           [(if y = sy then sm else 1)..(if y = ey then em else 12)]"
proof -
  let ?lo = "if y = sy then sm else 1" and ?hi = "if y = ey then em else 12"
  have "year_months sy sm ey em y [1..12] = filter (\<lambda>m. ?lo \<le> m \<and> m \<le> ?hi) [1..12]"
    unfolding year_months_def by (rule filter_cong) auto
  also have "\<dots> = [max 1 ?lo..min 12 ?hi]" by (rule filter_range_upto)
  also have "\<dots> = [?lo..?hi]" using assms by (simp add: max_def min_def)
  finally show ?thesis .
qed

lemma pairs_of_year:
  assumes "1 \<le> lo" "hi \<le> 12"
  shows "map (Pair y) [lo..hi] =
           map (\<lambda>i. (i div 12, i mod 12 + 1)) [month_index y lo..month_index y hi]"
proof -
  have "month_index y lo = lo + (y * 12 - 1)" "month_index y hi = hi + (y * 12 - 1)"
    by (simp_all add: month_index_def)
  then have "[month_index y lo..month_index y hi] = map (\<lambda>m. m + (y * 12 - 1)) [lo..hi]"
    by (simp only: map_shift_upto)
  moreover have "(m + (y * 12 - 1)) div 12 = y \<and> (m + (y * 12 - 1)) mod 12 + 1 = m"
    if "m \<in> set [lo..hi]" for m
  proof -
    from that assms have m: "1 \<le> m" "m \<le> 12" by auto
    have e: "m + (y * 12 - 1) = (m - 1) + y * 12" by simp
    show ?thesis unfolding e using m by (simp add: div_pos_pos_trivial mod_pos_pos_trivial)
  qed
  ultimately show ?thesis by (simp add: comp_def)
qed

lemma visited_tail:
  assumes "1 \<le> sm" "sm \<le> 12" "1 \<le> em" "em \<le> 12" "sy \<le> y0" "y0 \<le> ey"
  shows "visited sy sm ey em [y0..ey] =
           map (\<lambda>i. (i div 12, i mod 12 + 1))
             [month_index y0 (if y0 = sy then sm else 1)..month_index ey em]"
  using assms(5,6)
proof (induction "nat (ey - y0)" arbitrary: y0)
  case 0
  then have "y0 = ey" by simp
  then show ?case
    using assms(1-4) by (simp add: visited_def year_months_range[OF assms(1-4)] pairs_of_year)
next
  case (Suc n)
  then have lt: "y0 < ey" and n: "n = nat (ey - (y0 + 1))" by linarith+
  have ne: "y0 + 1 \<noteq> sy" using Suc.prems by simp
  let ?lo = "if y0 = sy then sm else 1"
  have lo: "1 \<le> ?lo" "?lo \<le> 12" using assms(1,2) by auto
  have IH: "visited sy sm ey em [y0 + 1..ey] =
      map (\<lambda>i. (i div 12, i mod 12 + 1)) [month_index (y0 + 1) 1..month_index ey em]"
    using Suc.hyps(1)[OF n] Suc.prems lt ne by simp
  have first: "map (Pair y0) (year_months sy sm ey em y0 [1..12]) =
      map (\<lambda>i. (i div 12, i mod 12 + 1)) [month_index y0 ?lo..month_index y0 12]"
    using lt lo by (simp add: year_months_range[OF assms(1-4)] pairs_of_year)
  have "[y0..ey] = y0 # [y0 + 1..ey]" using lt by (simp add: upto_rec1)
  then have "visited sy sm ey em [y0..ey] =
      map (Pair y0) (year_months sy sm ey em y0 [1..12]) @ visited sy sm ey em [y0 + 1..ey]"
    by (simp add: visited_def)
  also have "\<dots> = map (\<lambda>i. (i div 12, i mod 12 + 1))
      ([month_index y0 ?lo..month_index y0 12] @ [month_index (y0 + 1) 1..month_index ey em])"
    by (simp add: first IH)
  also have "[month_index y0 ?lo..month_index y0 12] @ [month_index (y0 + 1) 1..month_index ey em]
      = [month_index y0 ?lo..month_index ey em]"
  proof -
    have a: "month_index y0 12 = month_index (y0 + 1) 1 - 1" by (simp add: month_index_def)
    have b: "month_index y0 ?lo \<le> month_index (y0 + 1) 1" using lo by (simp add: month_index_def)
    have c: "month_index (y0 + 1) 1 \<le> month_index ey em + 1"
      using lt assms(3) by (simp add: month_index_def)
    show ?thesis
    proof (cases "month_index (y0 + 1) 1 \<le> month_index ey em")
      case True
      from upto_split1[OF b True] show ?thesis by (simp add: a)
    next
      case False
      with c have "month_index ey em = month_index (y0 + 1) 1 - 1" by simp
      then show ?thesis by (simp add: a)
    qed
  qed
  finally show ?case .
qed

lemma visited_periods:
  assumes "1 \<le> sm" "sm \<le> 12" "1 \<le> em" "em \<le> 12"
  shows "visited sy sm ey em [sy..ey] = periods sy sm ey em"
proof (cases "sy \<le> ey")
  case True
  from visited_tail[OF assms order_refl True] show ?thesis by (simp add: periods_def)
next
  case False
  then have "month_index ey em < month_index sy sm" using assms by (simp add: month_index_def)
  with False show ?thesis by (simp add: visited_def periods_def)
qed

lemma fetch_and_save_run:
  "fetch_and_save_monthly_data f sy sm ey em w =
     (case run_periods f (visited sy sm ey em [sy..ey]) [] w of
        (Inl e, w') \<Rightarrow> (Inl e, w')
      | (Inr d, w') \<Rightarrow> (Inr d, w'\<lparr>csv_file := Some (csv_rows d)\<rparr>))"
  by (simp add: fetch_and_save_monthly_data_def year_loop_run visited_def)

section \<open>Facts about decimal rendering and period keys\<close>

lemma digit_char_facts:
  assumes "0 \<le> d" "d < 10"
  shows "is_digit (digit_char d)" "digit_val (digit_char d) = d"
proof -
  from assms have "d = 0 \<or> d = 1 \<or> d = 2 \<or> d = 3 \<or> d = 4 \<or> d = 5 \<or> d = 6 \<or> d = 7 \<or> d = 8 \<or> d = 9"
    by arith
  then show "is_digit (digit_char d)" "digit_val (digit_char d) = d"
    by (auto simp: digit_char_def is_digit_def digit_val_def)
qed

lemma str_pos_small: "n < 10 \<Longrightarrow> str_pos n = [digit_char n]"
  by (simp add: str_pos.simps[of n])

lemma str_pos_large: "10 \<le> n \<Longrightarrow> str_pos n = str_pos (n div 10) @ [digit_char (n mod 10)]"
  by (simp add: str_pos.simps[of n])

lemma str_pos_nonempty: "str_pos n \<noteq> []"
  by (cases "n < 10") (simp_all add: str_pos_small str_pos_large)

lemma str_pos_digits: "0 \<le> n \<Longrightarrow> list_all is_digit (str_pos n)"
proof (induction n rule: str_pos.induct)
  case (1 n)
  show ?case
  proof (cases "n < 10")
    case True
    with "1.prems" show ?thesis by (simp add: str_pos_small digit_char_facts)
  next
    case False
    then have "list_all is_digit (str_pos (n div 10))" using "1.IH" "1.prems" by simp
    moreover have "is_digit (digit_char (n mod 10))" by (intro digit_char_facts) simp_all
    ultimately show ?thesis using False by (simp add: str_pos_large)
  qed
qed

lemma digits_val_str_pos: "0 \<le> n \<Longrightarrow> digits_val (str_pos n) = n"
proof (induction n rule: str_pos.induct)
  case (1 n)
  show ?case
  proof (cases "n < 10")
    case True
    with "1.prems" show ?thesis by (simp add: str_pos_small digits_val_def digit_char_facts)
  next
    case False
    then have "digits_val (str_pos (n div 10)) = n div 10" using "1.IH" "1.prems" by simp
    moreover have "digit_val (digit_char (n mod 10)) = n mod 10" by (intro digit_char_facts) simp_all
    ultimately show ?thesis using False by (simp add: str_pos_large digits_val_snoc)
  qed
qed

lemma minus_not_digit: "\<not> is_digit (CHR ''-'')"
  by (simp add: is_digit_def)

lemma str_int_inj: "str_int a = str_int b \<Longrightarrow> a = b"
proof -
  assume eq: "str_int a = str_int b"
  have hd_pos: "is_digit (hd (str_pos n))" if "0 \<le> n" for n
    using str_pos_digits[OF that] str_pos_nonempty[of n] by (cases "str_pos n") auto
  have sign: "a < 0 \<longleftrightarrow> b < 0"
  proof (rule ccontr)
    assume "\<not> ?thesis"
    then consider "a < 0" "0 \<le> b" | "0 \<le> a" "b < 0" by linarith
    then show False
    proof cases
      case 1
      with eq have "str_pos b = CHR ''-'' # str_pos (- a)" by (simp add: str_int_def)
      then have "hd (str_pos b) = CHR ''-''" by simp
      with hd_pos[OF 1(2)] minus_not_digit show False by simp
    next
      case 2
      with eq have "str_pos a = CHR ''-'' # str_pos (- b)" by (simp add: str_int_def)
      then have "hd (str_pos a) = CHR ''-''" by simp
      with hd_pos[OF 2(1)] minus_not_digit show False by simp
    qed
  qed
  show "a = b"
  proof (cases "a < 0")
    case True
    with sign eq have "str_pos (- a) = str_pos (- b)" by (simp add: str_int_def)
    then have "digits_val (str_pos (- a)) = digits_val (str_pos (- b))" by simp
    with True sign show ?thesis by (simp add: digits_val_str_pos)
  next
    case False
    with sign eq have "str_pos a = str_pos b" by (simp add: str_int_def)
    then have "digits_val (str_pos a) = digits_val (str_pos b)" by simp
    with False sign show ?thesis by (simp add: digits_val_str_pos)
  qed
qed

lemma pad2_facts:
  assumes "0 \<le> m" "m < 100"
  shows "length (pad2 m) = 2" "digits_val (pad2 m) = m" "list_all is_digit (pad2 m)"
proof -
  have z: "is_digit (CHR ''0'')" "digit_val (CHR ''0'') = 0"
    by (simp_all add: is_digit_def digit_val_def)
  show "length (pad2 m) = 2"
  proof (cases "m < 10")
    case True
    then show ?thesis using assms by (simp add: pad2_def str_int_def str_pos_small)
  next
    case False
    then have "m div 10 < 10" using assms by simp
    then show ?thesis using False assms
      by (simp add: pad2_def str_int_def str_pos_large str_pos_small)
  qed
  have sp: "str_int m = str_pos m" using assms by (simp add: str_int_def)
  show "digits_val (pad2 m) = m"
    using digits_val_str_pos[OF assms(1)] z
    by (simp add: pad2_def sp Let_def digits_val_def)
  show "list_all is_digit (pad2 m)"
    using str_pos_digits[OF assms(1)] z by (simp add: pad2_def sp Let_def)
qed

lemma period_key_inj:
  assumes "period_key y m = period_key y' m'" "0 \<le> m" "m < 100" "0 \<le> m'" "m' < 100"
  shows "y = y' \<and> m = m'"
proof -
  have len: "length (pad2 m) = length (pad2 m')"
    using pad2_facts(1)[OF assms(2,3)] pad2_facts(1)[OF assms(4,5)] by simp
  from assms(1) have "(str_int y @ ''-'') @ pad2 m = (str_int y' @ ''-'') @ pad2 m'"
    by (simp add: period_key_def)
  with len have "str_int y @ ''-'' = str_int y' @ ''-'' \<and> pad2 m = pad2 m'"
    by (metis append_eq_append_conv)
  then have "str_int y @ ''-'' = str_int y' @ ''-''" and p: "pad2 m = pad2 m'" by simp_all
  then have "y = y'" by (simp add: str_int_inj)
  moreover from p have "digits_val (pad2 m) = digits_val (pad2 m')" by simp
  then have "m = m'" using pad2_facts(2)[OF assms(2,3)] pad2_facts(2)[OF assms(4,5)] by simp
  ultimately show ?thesis by simp
qed

lemma period_key_length:
  assumes "1000 \<le> y" "y \<le> 9999" "1 \<le> m" "m \<le> 12"
  shows "length (period_key y m) = 7"
proof -
  have b: "10 \<le> y" "10 \<le> y div 10" "10 \<le> y div 10 div 10" "y div 10 div 10 div 10 < 10"
    using assms(1,2) by arith+
  have "length (str_pos y) = 4"
    by (simp add: str_pos_large[OF b(1)] str_pos_large[OF b(2)] str_pos_large[OF b(3)]
        str_pos_small[OF b(4)])
  moreover have "length (pad2 m) = 2" using assms(3,4) by (intro pad2_facts) simp_all
  ultimately show ?thesis using assms(1) by (simp add: period_key_def str_int_def)
qed

section \<open>Facts about a run over a list of periods\<close>

lemma process_period_world:
  "requests (snd (process_period f y m d w)) = requests w @ [page_url y m]"
  "csv_file (snd (process_period f y m d w)) = csv_file w"
  by (auto simp: process_period_def parse_awstats_monthly_page_def Let_def
      split: sum.splits option.splits)

lemma process_period_fail:
  assumes "f (page_url y m) = Inl e"
  shows "fst (process_period f y m d w) = Inl e"
  using assms by (simp add: process_period_def parse_awstats_monthly_page_def Let_def)

lemma format_bandwidth_zero: "format_bandwidth 0 = Inr ''0 B''"
  by code_simp

lemma process_period_ok:
  assumes "f (page_url y m) = Inr t" "page_ok t"
  shows "\<exists>b. fst (process_period f y m d w) = Inr (AList.update (period_key y m) b d)"
  using assms
  by (auto simp: process_period_def Let_def parse_awstats_monthly_page_def page_ok_def
      format_bandwidth_zero split: option.splits sum.splits)

lemma process_period_result:
  assumes "fst (process_period f y m d w) = Inr d'"
  shows "\<exists>b. d' = AList.update (period_key y m) b d"
  using assms
  by (auto simp: process_period_def Let_def split: prod.splits sum.splits)


lemma run_periods_world:
  "csv_file (snd (run_periods f ps d w)) = csv_file w"
proof (induction ps arbitrary: d w)
  case Nil
  then show ?case by simp
next
  case (Cons p ps)
  obtain y m where p: "p = (y, m)" by (cases p)
  obtain r w1 where r: "process_period f y m d w = (r, w1)" by (cases "process_period f y m d w")
  with process_period_world(2)[of f y m d w] have "csv_file w1 = csv_file w" by simp
  then show ?case by (cases r) (simp_all add: p r Cons.IH)
qed

lemma run_periods_keys:
  assumes "run_periods f ps d w = (Inr d', w')" "distinct (map key_of ps)"
    "set (map key_of ps) \<inter> set (map fst d) = {}"
  shows "map fst d' = map fst d @ map key_of ps"
  using assms
proof (induction ps arbitrary: d w)
  case Nil
  then show ?case by simp
next
  case (Cons p ps)
  obtain y m where p: "p = (y, m)" by (cases p)
  obtain r w1 where r: "process_period f y m d w = (r, w1)" by (cases "process_period f y m d w")
  from Cons.prems(1) obtain d1 where d1: "r = Inr d1" and run: "run_periods f ps d1 w1 = (Inr d', w')"
    by (cases r) (simp_all add: p r)
  from process_period_result[of f y m d w d1] r d1 obtain b
    where upd: "d1 = AList.update (period_key y m) b d" by auto
  have notin: "period_key y m \<notin> set (map fst d)" using Cons.prems(3) by (auto simp: p key_of_def)
  then have keys1: "map fst d1 = map fst d @ [period_key y m]"
    by (simp add: upd update_keys)
  have "set (map key_of ps) \<inter> set (map fst d1) = {}"
    using Cons.prems(2,3) by (auto simp: keys1 p key_of_def)
  from Cons.IH[OF run _ this] Cons.prems(2)
  show ?case by (simp add: keys1 p key_of_def)
qed

lemma run_periods_total:
  assumes "\<forall>p\<in>set ps. \<exists>t. f (url_of p) = Inr t \<and> page_ok t"
  shows "\<exists>d' w'. run_periods f ps d w = (Inr d', w') \<and> requests w' = requests w @ map url_of ps"
  using assms
proof (induction ps arbitrary: d w)
  case Nil
  then show ?case by simp
next
  case (Cons p ps)
  obtain y m where p: "p = (y, m)" by (cases p)
  from Cons.prems obtain t where t: "f (page_url y m) = Inr t" "page_ok t"
    by (auto simp: p url_of_def)
  obtain r w1 where r: "process_period f y m d w = (r, w1)" by (cases "process_period f y m d w")
  from process_period_ok[of f y m t d w] t r obtain b
    where "r = Inr (AList.update (period_key y m) b d)"
    by auto
  moreover from process_period_world(1)[of f y m d w] r
  have "requests w1 = requests w @ [page_url y m]" by simp
  moreover from Cons.prems have "\<forall>p\<in>set ps. \<exists>t. f (url_of p) = Inr t \<and> page_ok t" by simp
  from Cons.IH[OF this] obtain d' w' where
    "run_periods f ps (AList.update (period_key y m) b d) w1 = (Inr d', w') \<and>
     requests w' = requests w1 @ map url_of ps" by blast
  ultimately show ?case by (simp add: p r url_of_def)
qed

lemma run_periods_fail:
  assumes "\<forall>p\<in>set ps1. \<exists>t. f (url_of p) = Inr t \<and> page_ok t" "f (url_of q) = Inl e"
  shows "\<exists>w'. run_periods f (ps1 @ q # ps2) d w = (Inl e, w') \<and>
           requests w' = requests w @ map url_of (ps1 @ [q]) \<and> csv_file w' = csv_file w"
proof -
  from run_periods_total[OF assms(1), of d w] obtain d1 w1 where
    one: "run_periods f ps1 d w = (Inr d1, w1)" "requests w1 = requests w @ map url_of ps1"
    by blast
  obtain y m where q: "q = (y, m)" by (cases q)
  obtain r w2 where r: "process_period f y m d1 w1 = (r, w2)"
    by (cases "process_period f y m d1 w1")
  from assms(2) have "f (page_url y m) = Inl e" by (simp add: q url_of_def)
  with process_period_fail[of f y m e d1 w1] r have re: "r = Inl e" by simp
  from process_period_world[of f y m d1 w1] r
  have w2: "requests w2 = requests w1 @ [page_url y m]" "csv_file w2 = csv_file w1" by simp_all
  have "csv_file w1 = csv_file w" using run_periods_world[of f ps1 d w] one(1) by simp
  then show ?thesis
    using w2 one(2) by (simp add: run_periods_append one(1) q r re url_of_def)
qed

section \<open>Properties of the monthly aggregator\<close>

lemma periods_months:
  assumes "p \<in> set (periods sy sm ey em)"
  shows "1 \<le> snd p" "snd p \<le> 12" "month_index (fst p) (snd p) \<in> {month_index sy sm..month_index ey em}"
proof -
  from assms obtain i where i: "i \<in> {month_index sy sm..month_index ey em}"
    and p: "p = (i div 12, i mod 12 + 1)" by (auto simp: periods_def)
  show "1 \<le> snd p" "snd p \<le> 12" by (simp_all add: p)
  have "month_index (fst p) (snd p) = i" by (simp add: p month_index_def)
  with i show "month_index (fst p) (snd p) \<in> {month_index sy sm..month_index ey em}" by simp
qed

lemma periods_index:
  "map (\<lambda>p. month_index (fst p) (snd p)) (periods sy sm ey em) =
     [month_index sy sm..month_index ey em]"
  by (simp add: periods_def month_index_def comp_def)

lemma key_of_inj_on_periods: "inj_on key_of (set (periods sy sm ey em))"
proof (rule inj_onI)
  fix p q assume p: "p \<in> set (periods sy sm ey em)" and q: "q \<in> set (periods sy sm ey em)"
    and eq: "key_of p = key_of q"
  from periods_months(1,2)[OF p] periods_months(1,2)[OF q]
  have b: "0 \<le> snd p" "snd p < 100" "0 \<le> snd q" "snd q < 100" by simp_all
  from eq have "period_key (fst p) (snd p) = period_key (fst q) (snd q)" by (simp add: key_of_def)
  from period_key_inj[OF this b] show "p = q" by (simp add: prod_eq_iff)
qed

lemma periods_distinct: "distinct (periods sy sm ey em)"
proof -
  have "distinct (map (\<lambda>p. month_index (fst p) (snd p)) (periods sy sm ey em))"
    by (simp add: periods_index)
  then show ?thesis by (simp add: distinct_map)
qed

lemma periods_keys_distinct: "distinct (map key_of (periods sy sm ey em))"
  by (simp add: distinct_map periods_distinct key_of_inj_on_periods)

lemma key_example:
  "map key_of (periods 2023 11 2024 2) = [''2023-11'', ''2023-12'', ''2024-01'', ''2024-02'']"
  by code_simp

text \<open>
  Claim C8: for start and end months in 1..12, a run in which every page of the range is
  fetched and summed without exception returns, and a run that returns has exactly the keys
  of the months from the start period to the end period inclusive, each once, in that
  order. Numbered as months since year 0 these periods are the consecutive integers from
  the start to the end, so the order is strictly chronological without gaps. A key is the
  year, a hyphen and the month as two digits, seven characters for a four-digit year. The
  range 2023-11 to 2024-02 has the four keys of the specification.
\<close>

theorem aggregator_period_keys:
  "(1 \<le> sm \<and> sm \<le> 12 \<and> 1 \<le> em \<and> em \<le> 12 \<longrightarrow>
      ((\<forall>p\<in>set (periods sy sm ey em). \<exists>t. f (url_of p) = Inr t \<and> page_ok t) \<longrightarrow>
         (\<exists>d w'. fetch_and_save_monthly_data f sy sm ey em w = (Inr d, w')))
    \<and> (fetch_and_save_monthly_data f sy sm ey em w = (Inr d, w') \<longrightarrow>
         map fst d = map key_of (periods sy sm ey em) \<and> distinct (map fst d)))
   \<and> map (\<lambda>p. month_index (fst p) (snd p)) (periods sy sm ey em) =
       [month_index sy sm..month_index ey em]
   \<and> (\<forall>p\<in>set (periods sy sm ey em).
        1 \<le> snd p \<and> snd p \<le> 12 \<and> key_of p = str_int (fst p) @ ''-'' @ pad2 (snd p) \<and>
        length (pad2 (snd p)) = 2 \<and> digits_val (pad2 (snd p)) = snd p \<and>
        (1000 \<le> fst p \<and> fst p \<le> 9999 \<longrightarrow> length (key_of p) = 7))
   \<and> map key_of (periods 2023 11 2024 2) = [''2023-11'', ''2023-12'', ''2024-01'', ''2024-02'']"
proof (intro conjI impI ballI)
  assume v: "1 \<le> sm \<and> sm \<le> 12 \<and> 1 \<le> em \<and> em \<le> 12"
  then have vis: "visited sy sm ey em [sy..ey] = periods sy sm ey em"
    by (intro visited_periods) simp_all
  {
    assume "\<forall>p\<in>set (periods sy sm ey em). \<exists>t. f (url_of p) = Inr t \<and> page_ok t"
    from run_periods_total[OF this, of "[]" w] obtain d1 w1
      where "run_periods f (periods sy sm ey em) [] w = (Inr d1, w1)" by blast
    then show "\<exists>d w'. fetch_and_save_monthly_data f sy sm ey em w = (Inr d, w')"
      by (simp add: fetch_and_save_run vis)
  }
  assume ok: "fetch_and_save_monthly_data f sy sm ey em w = (Inr d, w')"
  then obtain w1 where run: "run_periods f (periods sy sm ey em) [] w = (Inr d, w1)"
    by (auto simp: fetch_and_save_run vis split: prod.splits sum.splits)
  from run_periods_keys[OF run periods_keys_distinct]
  show keys: "map fst d = map key_of (periods sy sm ey em)" by simp
  show "distinct (map fst d)" by (simp add: keys periods_keys_distinct)
next
  show "map (\<lambda>p. month_index (fst p) (snd p)) (periods sy sm ey em) =
       [month_index sy sm..month_index ey em]" by (rule periods_index)
next
  fix p assume p: "p \<in> set (periods sy sm ey em)"
  note m = periods_months(1,2)[OF p]
  show "1 \<le> snd p" "snd p \<le> 12" by (rule m)+
  show "key_of p = str_int (fst p) @ ''-'' @ pad2 (snd p)" by (simp add: key_of_def period_key_def)
  show "length (pad2 (snd p)) = 2" "digits_val (pad2 (snd p)) = snd p"
    using m by (simp_all add: pad2_facts)
  assume "1000 \<le> fst p \<and> fst p \<le> 9999"
  then show "length (key_of p) = 7" using m by (simp add: key_of_def period_key_length)
next
  show "map key_of (periods 2023 11 2024 2) = [''2023-11'', ''2023-12'', ''2024-01'', ''2024-02'']"
    by (rule key_example)
qed


text \<open>Claim C8 on the range 2023-11 to 2024-02 with pages that have no table.\<close>

theorem aggregator_period_keys_witness:
  "\<exists>d w'. fetch_and_save_monthly_data (\<lambda>u. Inr None) 2023 11 2024 2
             \<lparr>stdout = [], requests = [], csv_file = None\<rparr> = (Inr d, w')
          \<and> map fst d = [''2023-11'', ''2023-12'', ''2024-01'', ''2024-02'']"
proof -
  let ?f = "\<lambda>u::string. (Inr None :: error + table option)"
  let ?w = "\<lparr>stdout = [], requests = [], csv_file = None\<rparr>"
  have m: "(1::int) \<le> 11 \<and> (11::int) \<le> 12 \<and> (1::int) \<le> 2 \<and> (2::int) \<le> 12" by simp
  have ok: "\<forall>p\<in>set (periods 2023 11 2024 2). \<exists>t. ?f (url_of p) = Inr t \<and> page_ok t"
    by (simp add: page_ok_def)
  note T = aggregator_period_keys[of 11 2 2023 2024 ?f ?w]
  from T m ok obtain d w' where
    run: "fetch_and_save_monthly_data ?f 2023 11 2024 2 ?w = (Inr d, w')" by blast
  with T[of d w'] m have "map fst d = map key_of (periods 2023 11 2024 2)" by blast
  moreover have "map key_of (periods 2023 11 2024 2) =
      [''2023-11'', ''2023-12'', ''2024-01'', ''2024-02'']" using T by blast
  ultimately show ?thesis using run by auto
qed

lemma fetch_and_save_csv:
  "(fst (fetch_and_save_monthly_data f sy sm ey em w) = Inl e \<longrightarrow>
      csv_file (snd (fetch_and_save_monthly_data f sy sm ey em w)) = csv_file w)
   \<and> (fst (fetch_and_save_monthly_data f sy sm ey em w) = Inr d \<longrightarrow>
      csv_file (snd (fetch_and_save_monthly_data f sy sm ey em w)) = Some (csv_rows d))"
proof -
  obtain r w1 where r: "run_periods f (visited sy sm ey em [sy..ey]) [] w = (r, w1)"
    by (cases "run_periods f (visited sy sm ey em [sy..ey]) [] w")
  from run_periods_world[of f "visited sy sm ey em [sy..ey]" "[]" w] r
  have "csv_file w1 = csv_file w" by simp
  then show ?thesis by (cases r) (simp_all add: fetch_and_save_run r)
qed

text \<open>
  Claim C9: when the periods before \<open>q\<close> are processed and the fetch of \<open>q\<close> raises, the run
  ends with that exception, the URL of \<open>q\<close> is the last one requested, and the CSV file is
  as it was. Whatever the exception, a run that raises leaves the CSV file untouched, and a
  run that returns has written the rows of its result.
\<close>

theorem aggregator_aborts_on_fetch_failure:
  "(1 \<le> sm \<and> sm \<le> 12 \<and> 1 \<le> em \<and> em \<le> 12 \<and> periods sy sm ey em = ps1 @ q # ps2 \<and>
    (\<forall>p\<in>set ps1. \<exists>t. f (url_of p) = Inr t \<and> page_ok t) \<and> f (url_of q) = Inl e \<longrightarrow>
      (\<exists>w'. fetch_and_save_monthly_data f sy sm ey em w = (Inl e, w') \<and>
            requests w' = requests w @ map url_of (ps1 @ [q]) \<and> csv_file w' = csv_file w))
   \<and> (fst (fetch_and_save_monthly_data f sy sm ey em w) = Inl e' \<longrightarrow>
        csv_file (snd (fetch_and_save_monthly_data f sy sm ey em w)) = csv_file w)
   \<and> (fst (fetch_and_save_monthly_data f sy sm ey em w) = Inr d \<longrightarrow>
        csv_file (snd (fetch_and_save_monthly_data f sy sm ey em w)) = Some (csv_rows d))"
proof (intro conjI impI)
  assume a: "1 \<le> sm \<and> sm \<le> 12 \<and> 1 \<le> em \<and> em \<le> 12 \<and> periods sy sm ey em = ps1 @ q # ps2 \<and>
    (\<forall>p\<in>set ps1. \<exists>t. f (url_of p) = Inr t \<and> page_ok t) \<and> f (url_of q) = Inl e"
  then have vis: "visited sy sm ey em [sy..ey] = ps1 @ q # ps2"
    using visited_periods[of sm em sy ey] by simp
  from a have ok: "\<forall>p\<in>set ps1. \<exists>t. f (url_of p) = Inr t \<and> page_ok t" and q: "f (url_of q) = Inl e"
    by simp_all
  from run_periods_fail[OF ok q, of ps2 "[]" w] obtain w' where
    "run_periods f (ps1 @ q # ps2) [] w = (Inl e, w')"
    "requests w' = requests w @ map url_of (ps1 @ [q])" "csv_file w' = csv_file w" by blast
  then show "\<exists>w'. fetch_and_save_monthly_data f sy sm ey em w = (Inl e, w') \<and>
            requests w' = requests w @ map url_of (ps1 @ [q]) \<and> csv_file w' = csv_file w"
    by (simp add: fetch_and_save_run vis)
next
  assume "fst (fetch_and_save_monthly_data f sy sm ey em w) = Inl e'"
  then show "csv_file (snd (fetch_and_save_monthly_data f sy sm ey em w)) = csv_file w"
    using fetch_and_save_csv[of f sy sm ey em w e'] by blast
next
  assume "fst (fetch_and_save_monthly_data f sy sm ey em w) = Inr d"
  then show "csv_file (snd (fetch_and_save_monthly_data f sy sm ey em w)) = Some (csv_rows d)"
    using fetch_and_save_csv[of f sy sm ey em w _ d] by blast
qed

text \<open>Claim C9 on the range 2023-11 to 2024-02 when the request for 2024-01 fails.\<close>

theorem aggregator_aborts_on_fetch_failure_witness:
  "\<exists>w'. fetch_and_save_monthly_data failing_2024_01 2023 11 2024 2
           \<lparr>stdout = [], requests = [], csv_file = None\<rparr> = (Inl RequestError, w')
        \<and> requests w' = [page_url 2023 11, page_url 2023 12, page_url 2024 1]
        \<and> csv_file w' = None"
proof -
  let ?w = "\<lparr>stdout = [], requests = [], csv_file = None\<rparr>"
  have p: "periods 2023 11 2024 2 = [(2023, 11), (2023, 12)] @ (2024, 1) # [(2024, 2)]"
    by code_simp
  have f1: "failing_2024_01 (url_of (2023, 11)) = Inr None"
    and f2: "failing_2024_01 (url_of (2023, 12)) = Inr None"
    and f3: "failing_2024_01 (url_of (2024, 1)) = Inl RequestError"
    by code_simp+
  have ok: "\<forall>p\<in>set [(2023, 11), (2023, 12)]. \<exists>t. failing_2024_01 (url_of p) = Inr t \<and> page_ok t"
    using f1 f2 by (simp add: page_ok_def)
  have u: "map url_of ([(2023, 11), (2023, 12)] @ [(2024, 1)]) =
      [page_url 2023 11, page_url 2023 12, page_url 2024 1]"
    by (simp add: url_of_def)
  from aggregator_aborts_on_fetch_failure[of 11 2 2023 2024 "[(2023, 11), (2023, 12)]" "(2024, 1)"
      "[(2024, 2)]" failing_2024_01 RequestError ?w] p ok f3
  obtain w' where "fetch_and_save_monthly_data failing_2024_01 2023 11 2024 2 ?w = (Inl RequestError, w')"
    "requests w' = requests ?w @ map url_of ([(2023, 11), (2023, 12)] @ [(2024, 1)])"
    "csv_file w' = csv_file ?w" by auto
  then show ?thesis by (simp only: u) simp
qed

end
